theory Spec2Isabelle
  imports Main "HOL-Library.AList"
begin

section \<open>JavaScript values and the object store\<close>

text \<open>
  The program is JavaScript (\<^verbatim>\<open>src/index.js\<close>): objects and arrays are shared by
  reference and mutated in place. Values are therefore primitives or references into an
  explicit store; the store is a list of objects and an address is a position in it.
  A plain object is its list of own enumerable properties in enumeration order, an array
  is the list of its elements. Numbers are modelled as the integers and \<open>NaN\<close>: the
  program only tests them for truthiness. A string is the list of its code units.
  Properties inherited from a prototype are not modelled: a lookup sees own properties
  only.
\<close>

type_synonym addr = nat

datatype fn = UserFn nat | Noop

datatype val =
    Undefined
  | Null
  | Bool bool
  | Num int
  | NaN
  | Str string
  | Fn fn
  | Ref addr

type_synonym props = "(string \<times> val) list"

datatype hobj = Obj props | Arr "val list"

type_synonym heap = "hobj list"

datatype error = TypeError | Exotic

text \<open>
  \<open>TypeError\<close> is the exception JavaScript throws. \<open>Exotic\<close> marks a step the
  model does not follow: a property written onto an array or a function.
\<close>

fun truthy :: "val \<Rightarrow> bool" where
  "truthy Undefined = False"
| "truthy Null = False"
| "truthy (Bool b) = b"
| "truthy (Num n) = (n \<noteq> 0)"
| "truthy NaN = False"
| "truthy (Str s) = (s \<noteq> [])"
| "truthy (Fn f) = True"
| "truthy (Ref a) = True"

fun typeof :: "val \<Rightarrow> string" where
  "typeof Undefined = ''undefined''"
| "typeof Null = ''object''"
| "typeof (Bool b) = ''boolean''"
| "typeof (Num n) = ''number''"
| "typeof NaN = ''number''"
| "typeof (Str s) = ''string''"
| "typeof (Fn f) = ''function''"
| "typeof (Ref a) = ''object''"

definition deref :: "heap \<Rightarrow> addr \<Rightarrow> hobj" where
  "deref h a = (if a < length h then h ! a else Obj [])"

definition alloc :: "heap \<Rightarrow> hobj \<Rightarrow> heap \<times> addr" where
  "alloc h ob = (h @ [ob], length h)"

fun digits :: "nat \<Rightarrow> string" where
  "digits n =
     (if n < 10 then [''0123456789'' ! n]
      else digits (n div 10) @ [''0123456789'' ! (n mod 10)])"

declare digits.simps [simp del]

definition index_names :: "nat \<Rightarrow> string list" where
  "index_names n = map digits [0..<n]"

fun own_keys :: "hobj \<Rightarrow> string list" where
  "own_keys (Obj ps) = map fst ps"
| "own_keys (Arr xs) = index_names (length xs)"

fun own_prop :: "hobj \<Rightarrow> string \<Rightarrow> val" where
  "own_prop (Obj ps) k = (case map_of ps k of None \<Rightarrow> Undefined | Some v \<Rightarrow> v)"
| "own_prop (Arr xs) k =
     (if k = ''length'' then Num (int (length xs))
      else case map_of (zip (index_names (length xs)) xs) k of
             None \<Rightarrow> Undefined
           | Some v \<Rightarrow> v)"

text \<open>\<open>member h v k\<close> is the expression \<^verbatim>\<open>v[k]\<close>.\<close>

fun member :: "heap \<Rightarrow> val \<Rightarrow> string \<Rightarrow> error + val" where
  "member h Undefined k = Inl TypeError"
| "member h Null k = Inl TypeError"
| "member h (Ref a) k = Inr (own_prop (deref h a) k)"
| "member h (Str s) k = Inr (own_prop (Arr (map (\<lambda>c. Str [c]) s)) k)"
| "member h v k = Inr Undefined"

section \<open>The combination resolver\<close>

text \<open>
  \<^verbatim>\<open>findValidDeviceCertProfileCombos(options, callback)\<close>, lines 178 to 243.
  The three collaborators \<^verbatim>\<open>device.detect\<close>, \<^verbatim>\<open>certs.detect\<close> and
  \<^verbatim>\<open>provisioning.find\<close> live in other modules; what they hand to their callbacks is
  a parameter of the model. \<open>None\<close> stands for a missing value (the collaborator
  reported an error and passed no result): the code ignores \<^verbatim>\<open>err\<close> and reads the
  result, which throws.
\<close>

record device =
  dev_udid :: string

record cert =
  cert_name :: string
  cert_pem :: string

record profile =
  pp_uuid :: string
  pp_devices :: "string list option"
  pp_certs :: "string list"

record find_query =
  q_appId :: val
  q_certs :: "cert list"
  q_devicesUDIDs :: "string list"

type_synonym keychains = "(string \<times> (string \<times> cert list) list) list"

record world =
  device_detect :: "device list option"
  certs_detect :: "keychains option"
  provisioning_find :: "find_query \<Rightarrow> profile list option"

type_synonym combo = "(string \<times> string) list"

datatype call = DeviceDetect | CertsDetect | ProvisioningFind find_query

datatype outcome = CallbackError string | CallbackOk "combo list" | Thrown error

record run =
  calls :: "call list"
  options_used :: val
  callback_used :: val
  outcome :: outcome

text \<open>Lines 179 to 185: the argument normalisation. \<^verbatim>\<open>{}\<close> allocates an object.\<close>

definition normalize_args :: "heap \<Rightarrow> val \<Rightarrow> val \<Rightarrow> heap \<times> val \<times> val" where
  "normalize_args h options callback =
     (let (h1, options1, callback1) =
            (if typeof options = ''function'' then
               (let (h', a) = alloc h (Obj []) in (h', Ref a, options))
             else if \<not> truthy options then
               (let (h', a) = alloc h (Obj []) in (h', Ref a, callback))
             else (h, options, callback))
      in (h1, options1, if typeof callback1 = ''function'' then callback1 else Fn Noop))"

definition starts_with :: "'a list \<Rightarrow> 'a list \<Rightarrow> bool" where
  "starts_with s p = (take (length p) s = p)"

text \<open>\<^verbatim>\<open>String.prototype.indexOf\<close>: the first position where \<open>p\<close> occurs, or \<open>-1\<close>.\<close>

fun str_index_from :: "string \<Rightarrow> string \<Rightarrow> nat \<Rightarrow> int" where
  "str_index_from [] p k = (if p = [] then int k else - 1)"
| "str_index_from (c # s) p k =
     (if starts_with (c # s) p then int k else str_index_from s p (Suc k))"

definition str_indexOf :: "string \<Rightarrow> string \<Rightarrow> int" where
  "str_indexOf s p = str_index_from s p 0"

text \<open>\<^verbatim>\<open>Array.prototype.indexOf\<close> on an array of strings (strict equality).\<close>

fun arr_index_from :: "'a list \<Rightarrow> 'a \<Rightarrow> nat \<Rightarrow> int" where
  "arr_index_from [] x k = - 1"
| "arr_index_from (y # ys) x k = (if y = x then int k else arr_index_from ys x (Suc k))"

definition arr_indexOf :: "'a list \<Rightarrow> 'a \<Rightarrow> int" where
  "arr_indexOf ys x = arr_index_from ys x 0"

definition pem_header :: string where
  "pem_header = ''-----BEGIN CERTIFICATE-----'' @ [CHR 0x0A]"

text \<open>\<^verbatim>\<open>pem.replace(/^-----BEGIN CERTIFICATE-----\n/, '')\<close>: the pattern is anchored.\<close>

definition strip_header :: "string \<Rightarrow> string" where
  "strip_header pem =
     (if starts_with pem pem_header then drop (length pem_header) pem else pem)"

definition substring :: "string \<Rightarrow> nat \<Rightarrow> nat \<Rightarrow> string" where
  "substring s i j = take (j - i) (drop i s)"

definition cert_prefix :: "cert \<Rightarrow> string" where
  "cert_prefix c = substring (strip_header (cert_pem c)) 0 60"

definition mk_combo :: "profile \<Rightarrow> cert \<Rightarrow> device \<Rightarrow> combo" where
  "mk_combo p c d =
     [(''ppUUID'', pp_uuid p), (''certName'', cert_name c), (''deviceUDID'', dev_udid d)]"

text \<open>\<^verbatim>\<open>xs.forEach(f)\<close> with the state the callback mutates passed along.\<close>

definition forEach :: "'a list \<Rightarrow> ('a \<Rightarrow> 's \<Rightarrow> 's) \<Rightarrow> 's \<Rightarrow> 's" where
  "forEach xs f s = fold f xs s"

definition push :: "'a \<Rightarrow> 'a list \<Rightarrow> 'a list" where
  "push x xs = xs @ [x]"

text \<open>Lines 196 to 202: every keychain, every type, concatenated.\<close>

definition flatten_certs :: "keychains \<Rightarrow> cert list" where
  "flatten_certs ks =
     forEach ks (\<lambda>(keychain, types).
       forEach types (\<lambda>(type, cs) certs. certs @ cs)) []"

text \<open>Lines 219 to 237: the four nested loops.\<close>

definition combos_of :: "profile list \<Rightarrow> device list \<Rightarrow> cert list \<Rightarrow> combo list" where
  "combos_of profiles devices certs =
     forEach profiles (\<lambda>profile.
       forEach devices (\<lambda>device.
         if (case pp_devices profile of
               None \<Rightarrow> False
             | Some ds \<Rightarrow> arr_indexOf ds (dev_udid device) \<noteq> - 1)
         then
           forEach certs (\<lambda>cert.
             forEach (pp_certs profile) (\<lambda>pcert.
               if str_indexOf pcert (cert_prefix cert) = 0
               then push (mk_combo profile cert device)
               else id))
         else id)) []"

definition findValidDeviceCertProfileCombos :: "world \<Rightarrow> heap \<Rightarrow> val \<Rightarrow> val \<Rightarrow> run" where
  "findValidDeviceCertProfileCombos w h options callback =
     (let (h1, options1, callback1) = normalize_args h options callback;
          finish = (\<lambda>cs out. \<lparr>calls = cs, options_used = options1,
                                callback_used = callback1, outcome = out\<rparr>)
      in case device_detect w of
           None \<Rightarrow> finish [DeviceDetect] (Thrown TypeError)
         | Some devices \<Rightarrow>
             if length devices = 0 then
               finish [DeviceDetect] (CallbackError ''No iOS devices connected'')
             else
               (case certs_detect w of
                  None \<Rightarrow> finish [DeviceDetect, CertsDetect] (Thrown TypeError)
                | Some ks \<Rightarrow>
                    let certs = flatten_certs ks in
                    if length certs = 0 then
                      finish [DeviceDetect, CertsDetect] (CallbackError ''No iOS certificates'')
                    else
                      (case member h1 options1 ''appId'' of
                         Inl e \<Rightarrow> finish [DeviceDetect, CertsDetect] (Thrown e)
                       | Inr app \<Rightarrow>
                           let q = \<lparr>q_appId = app, q_certs = certs,
                                     q_devicesUDIDs = map dev_udid devices\<rparr>;
                               cs = [DeviceDetect, CertsDetect, ProvisioningFind q]
                           in case provisioning_find w q of
                                None \<Rightarrow> finish cs (Thrown TypeError)
                              | Some profiles \<Rightarrow>
                                  if length profiles = 0 then
                                    finish cs (CallbackError ''No provisioning profiles found'')
                                  else
                                    finish cs (CallbackOk (combos_of profiles devices certs)))))"

text \<open>
  The resolver's matching, in the words of the specification: a profile authorizes a
  device when the device's udid is in the profile's device list, and the combos are
  listed profiles first, then devices, then certificates, then the profile's embedded
  fingerprints.
\<close>

definition authorizes :: "profile \<Rightarrow> device \<Rightarrow> bool" where
  "authorizes p d = (case pp_devices p of None \<Rightarrow> False | Some ds \<Rightarrow> dev_udid d \<in> set ds)"

definition combos_in_order :: "profile list \<Rightarrow> device list \<Rightarrow> cert list \<Rightarrow> combo list" where
  "combos_in_order profiles devices certs =
     [mk_combo p c d.
        p \<leftarrow> profiles,
        d \<leftarrow> devices, authorizes p d,
        c \<leftarrow> certs,
        f \<leftarrow> pp_certs p, starts_with f (cert_prefix c)]"

subsection \<open>A sample environment\<close>

text \<open>
  One device, one certificate whose body starts with sixty known characters, and one
  profile that lists the device and embeds a fingerprint starting with those characters.
\<close>

definition ex_body :: string where
  "ex_body = ''MIIFnTCCBIWgAwIBAgIICL0wnHyNBQowDQYJKoZIhvcNAQEFBQAwgZYxCzAJ''"

definition ex_device :: device where
  "ex_device = \<lparr>dev_udid = ''D1''\<rparr>"

definition ex_cert :: cert where
  "ex_cert = \<lparr>cert_name = ''Dev1'', cert_pem = pem_header @ ex_body @ ''BgNVBAYTAlVT''\<rparr>"

definition ex_profile :: profile where
  "ex_profile = \<lparr>pp_uuid = ''P1'', pp_devices = Some [''D1''], pp_certs = [ex_body @ ''XYZ'']\<rparr>"

definition ex_keychains :: keychains where
  "ex_keychains = [(''login'', [(''developer'', [ex_cert])])]"

definition ex_world :: world where
  "ex_world = \<lparr>device_detect = Some [ex_device], certs_detect = Some ex_keychains,
                provisioning_find = (\<lambda>q. Some [ex_profile])\<rparr>"

definition ex_no_devices :: world where
  "ex_no_devices = ex_world\<lparr>device_detect := Some []\<rparr>"

definition ex_no_certs :: world where
  "ex_no_certs =
     ex_world\<lparr>certs_detect := Some [(''login'', [(''developer'', [])]), (''System'', [])]\<rparr>"

definition ex_no_profiles :: world where
  "ex_no_profiles = ex_world\<lparr>provisioning_find := (\<lambda>q. Some [])\<rparr>"

section \<open>The result merger\<close>

text \<open>
  \<^verbatim>\<open>mix(src, dest)\<close>, lines 100 to 117. Both arguments are references to objects in
  the store; the function returns the store it leaves behind, or the exception that
  ends it. The flag \<open>strict\<close> says whether the code runs in strict mode: it decides
  what an assignment to a property of a primitive does.
\<close>

text \<open>\<^verbatim>\<open>o[k] = v\<close> for the object at address \<open>a\<close>: an existing key keeps its place.\<close>

definition store_prop :: "heap \<Rightarrow> addr \<Rightarrow> string \<Rightarrow> val \<Rightarrow> error + heap" where
  "store_prop h a k v =
     (case deref h a of
        Obj ps \<Rightarrow> Inr (h[a := Obj (AList.update k v ps)])
      | Arr xs \<Rightarrow> Inl Exotic)"

text \<open>\<^verbatim>\<open>t[k] = v\<close> for a value \<open>t\<close>.\<close>

fun assign :: "bool \<Rightarrow> heap \<Rightarrow> val \<Rightarrow> string \<Rightarrow> val \<Rightarrow> error + heap" where
  "assign strict h (Ref a) k v = store_prop h a k v"
| "assign strict h Undefined k v = Inl TypeError"
| "assign strict h Null k v = Inl TypeError"
| "assign strict h (Fn f) k v = Inl Exotic"
| "assign strict h t k v = (if strict then Inl TypeError else Inr h)"

definition isArray :: "heap \<Rightarrow> val \<Rightarrow> bool" where
  "isArray h v =
     (case v of
        Ref a \<Rightarrow> (case deref h a of Arr xs \<Rightarrow> True | Obj ps \<Rightarrow> False)
      | _ \<Rightarrow> False)"

definition elems :: "heap \<Rightarrow> val \<Rightarrow> val list" where
  "elems h v =
     (case v of
        Ref a \<Rightarrow> (case deref h a of Arr xs \<Rightarrow> xs | Obj ps \<Rightarrow> [])
      | _ \<Rightarrow> [])"

text \<open>\<^verbatim>\<open>Object.keys(v)\<close>.\<close>

fun object_keys :: "heap \<Rightarrow> val \<Rightarrow> error + string list" where
  "object_keys h Undefined = Inl TypeError"
| "object_keys h Null = Inl TypeError"
| "object_keys h (Ref a) = Inr (own_keys (deref h a))"
| "object_keys h (Str s) = Inr (index_names (length s))"
| "object_keys h v = Inr []"

text \<open>A \<^verbatim>\<open>forEach\<close> whose callback may throw: the exception ends the loop.\<close>

fun forEachE :: "'a list \<Rightarrow> ('a \<Rightarrow> 's \<Rightarrow> error + 's) \<Rightarrow> 's \<Rightarrow> error + 's" where
  "forEachE [] f s = Inr s"
| "forEachE (x # xs) f s = (case f x s of Inl e \<Rightarrow> Inl e | Inr s' \<Rightarrow> forEachE xs f s')"

text \<open>Line 111: \<^verbatim>\<open>dest[name][key] = src[name][key]\<close>.\<close>

definition mix_inner :: "bool \<Rightarrow> addr \<Rightarrow> addr \<Rightarrow> string \<Rightarrow> string \<Rightarrow> heap \<Rightarrow> error + heap" where
  "mix_inner strict src dest name key h =
     (case member h (own_prop (deref h src) name) key of
        Inl e \<Rightarrow> Inl e
      | Inr v \<Rightarrow> assign strict h (own_prop (deref h dest) name) key v)"

text \<open>Lines 102 to 115: the body of the outer \<^verbatim>\<open>forEach\<close>, for one name.\<close>

definition mix_key :: "bool \<Rightarrow> addr \<Rightarrow> addr \<Rightarrow> string \<Rightarrow> heap \<Rightarrow> error + heap" where
  "mix_key strict src dest name h =
     (let v = own_prop (deref h src) name in
      if isArray h v then
        (let d = own_prop (deref h dest) name in
         if isArray h d then
           (let (h1, a) = alloc h (Arr (elems h d @ elems h v))
            in store_prop h1 dest name (Ref a))
         else store_prop h dest name v)
      else if v \<noteq> Null \<and> typeof v = ''object'' then
        (case (if truthy (own_prop (deref h dest) name) then Inr h
               else (let (h1, a) = alloc h (Obj []) in store_prop h1 dest name (Ref a))) of
           Inl e \<Rightarrow> Inl e
         | Inr h2 \<Rightarrow>
             (case object_keys h2 (own_prop (deref h2 src) name) of
                Inl e \<Rightarrow> Inl e
              | Inr ks \<Rightarrow> forEachE ks (mix_inner strict src dest name) h2))
      else store_prop h dest name v)"

definition mix :: "bool \<Rightarrow> addr \<Rightarrow> addr \<Rightarrow> heap \<Rightarrow> error + heap" where
  "mix strict src dest h = forEachE (own_keys (deref h src)) (mix_key strict src dest) h"

section \<open>The detection orchestrator\<close>

text \<open>
  \<^verbatim>\<open>detect(options, callback)\<close>, lines 88 to 167: the function handed to
  \<^verbatim>\<open>magik\<close>, which receives the emitter, the options and the callback. The six
  detectors and \<^verbatim>\<open>async.parallel\<close> are collaborators. A run is described by the
  order in which the detectors call back and by what each passes: an error value and
  the address of its result object. The detectors are taken to call back after
  \<^verbatim>\<open>async.parallel\<close> has started them all. \<^verbatim>\<open>async.parallel\<close> calls its final
  callback once: with the first error, or with no error when every task has completed.

  What the run does to the outside is kept in a log: detectors invoked, events
  emitted, the callback called, the cache assigned, an exception left uncaught.
\<close>

datatype detector =
  Certificates | Devices | Environment | ProvisioningProfiles | Simulators | Xcodes

type_synonym completion = "detector \<times> val \<times> addr"

datatype event =
    Invoked detector
  | Emitted string val
  | CalledBack val val
  | Stored val
  | Threw error
  | Uncaught val

record dstate =
  store :: heap
  cache :: val
  log :: "event list"

definition tasks :: "detector list" where
  "tasks = [Certificates, Devices, Environment, ProvisioningProfiles, Simulators, Xcodes]"

definition say :: "event list \<Rightarrow> dstate \<Rightarrow> dstate" where
  "say es st = st\<lparr>log := log st @ es\<rparr>"

text \<open>Lines 95 to 98: the fresh report.\<close>

definition fresh_report :: "heap \<Rightarrow> heap \<times> addr" where
  "fresh_report h =
     (let (h1, issues) = alloc h (Arr []) in
      alloc h1 (Obj [(''detectVersion'', Str ''4.0''), (''issues'', Ref issues)]))"

text \<open>
  Lines 119 to 165. \<open>pending\<close> counts the tasks that have not completed, \<open>called\<close>
  says whether the final callback has run. \<open>listens\<close> says for which events the
  emitter has a listener: emitting \<^verbatim>\<open>error\<close> without one throws the error.
\<close>

fun run_parallel ::
  "bool \<Rightarrow> (string \<Rightarrow> bool) \<Rightarrow> addr \<Rightarrow> completion list \<Rightarrow> nat \<Rightarrow> bool \<Rightarrow> dstate \<Rightarrow> dstate"
where
  "run_parallel strict listens results [] pending called st = st"
| "run_parallel strict listens results ((d, err, result) # rest) pending called st =
     (if truthy err then
        (if called then run_parallel strict listens results rest (pending - 1) True st
         else if \<not> listens ''error'' then say [Uncaught err] st
         else run_parallel strict listens results rest (pending - 1) True
                (say [Emitted ''error'' err, CalledBack err Undefined] st))
      else
        (case mix strict result results (store st) of
           Inl e \<Rightarrow> say [Threw e] st
         | Inr h' \<Rightarrow>
             (let st' = st\<lparr>store := h'\<rparr> in
              if pending - 1 = 0 \<and> \<not> called then
                run_parallel strict listens results rest (pending - 1) True
                  (say [Stored (Ref results), Emitted ''detected'' (Ref results),
                        CalledBack Null (Ref results)]
                     (st'\<lparr>cache := Ref results\<rparr>))
              else run_parallel strict listens results rest (pending - 1) called st')))"

definition cache_hit :: "val \<Rightarrow> dstate \<Rightarrow> error + bool" where
  "cache_hit options st =
     (if truthy (cache st) then
        (case member (store st) options ''bypassCache'' of
           Inl e \<Rightarrow> Inl e
         | Inr b \<Rightarrow> Inr (\<not> truthy b))
      else Inr False)"

definition detect ::
  "bool \<Rightarrow> (string \<Rightarrow> bool) \<Rightarrow> val \<Rightarrow> completion list \<Rightarrow> dstate \<Rightarrow> dstate"
where
  "detect strict listens options sched st =
     (case cache_hit options st of
        Inl e \<Rightarrow> say [Threw e] st
      | Inr True \<Rightarrow> say [Emitted ''detected'' (cache st), CalledBack Null (cache st)] st
      | Inr False \<Rightarrow>
          (let (h, results) = fresh_report (store st) in
           run_parallel strict listens results sched (length tasks) False
             (say (map Invoked tasks) (st\<lparr>store := h\<rparr>))))"

text \<open>All the results of a list of detectors merged into the report, in order.\<close>

definition merge_all :: "bool \<Rightarrow> addr \<Rightarrow> addr list \<Rightarrow> heap \<Rightarrow> error + heap" where
  "merge_all strict results rs h = forEachE rs (\<lambda>r. mix strict r results) h"

subsection \<open>A sample store and two sample runs\<close>

text \<open>
  A store with an older report at 0, detector results at 1, 3 and 6, and two option
  objects at 5 and 6. In the first run every detector succeeds; in the second the third
  detector to call back passes an error, and so does a later one.
\<close>

definition ex_store :: heap where
  "ex_store =
     [Obj [(''detectVersion'', Str ''4.0'')],
      Obj [(''certs'', Ref 2), (''issues'', Ref 4)],
      Obj [(''wwdr'', Bool True)],
      Obj [(''devices'', Ref 4)],
      Arr [],
      Obj [(''bypassCache'', Bool True)],
      Obj []]"

definition ex_cold :: dstate where
  "ex_cold = \<lparr>store = ex_store, cache = Undefined, log = []\<rparr>"

definition ex_warm :: dstate where
  "ex_warm = \<lparr>store = ex_store, cache = Ref 0, log = []\<rparr>"

definition ex_all_ok :: "completion list" where
  "ex_all_ok = [(Devices, Null, 3), (Certificates, Null, 1), (Environment, Undefined, 6),
                (Xcodes, Null, 6), (Simulators, Null, 6), (ProvisioningProfiles, Null, 6)]"

definition ex_one_fails :: "completion list" where
  "ex_one_fails = [(Devices, Null, 3), (Certificates, Null, 1), (Environment, Str ''boom'', 6),
                (Xcodes, Null, 6), (Simulators, Str ''late'', 6), (ProvisioningProfiles, Null, 6)]"

section \<open>Separation of source and destination\<close>

text \<open>The addresses a list of values refers to, and those an object holds directly.\<close>

fun ref_addrs :: "val list \<Rightarrow> addr list" where
  "ref_addrs [] = []"
| "ref_addrs (Ref a # vs) = a # ref_addrs vs"
| "ref_addrs (v # vs) = ref_addrs vs"

fun refs_of :: "hobj \<Rightarrow> addr list" where
  "refs_of (Obj ps) = ref_addrs (map snd ps)"
| "refs_of (Arr xs) = ref_addrs xs"

text \<open>A plain object, as opposed to an array.\<close>

definition plain :: "heap \<Rightarrow> addr \<Rightarrow> bool" where
  "plain h a = (case deref h a of Obj ps \<Rightarrow> True | Arr xs \<Rightarrow> False)"

text \<open>
  The merger is called as \<^verbatim>\<open>mix(result, results)\<close> (lines 122 to 152): the destination
  is the report that \<^verbatim>\<open>detect\<close> builds in a local variable, the source is what a
  detector hands over. \<open>separated\<close> states what this gives: source and destination are
  two plain objects of the store with unique keys, every reference they hold points into
  the store, the source holds no reference to the destination, and the plain objects the
  destination holds directly (the objects the merger writes into) are pairwise distinct,
  are neither the source nor the destination, and are not held by the source. Arrays may
  be shared freely.
\<close>

definition separated :: "heap \<Rightarrow> addr \<Rightarrow> addr \<Rightarrow> bool" where
  "separated h src dest \<longleftrightarrow>
     src < length h \<and> dest < length h \<and> src \<noteq> dest \<and> plain h src \<and> plain h dest \<and>
     distinct (own_keys (deref h src)) \<and> distinct (own_keys (deref h dest)) \<and>
     (\<forall>s\<in>set (refs_of (deref h src)). s < length h \<and> s \<noteq> dest) \<and>
     (\<forall>b\<in>set (refs_of (deref h dest)).
        b < length h \<and>
        (plain h b \<longrightarrow> b \<noteq> src \<and> b \<noteq> dest \<and> b \<notin> set (refs_of (deref h src)))) \<and>
     distinct (filter (plain h) (refs_of (deref h dest)))"

text \<open>The object at \<open>a\<close> has the own property \<open>k\<close>, bound to \<open>v\<close>.\<close>

definition has_prop :: "heap \<Rightarrow> addr \<Rightarrow> string \<Rightarrow> val \<Rightarrow> bool" where
  "has_prop h a k v = (case deref h a of Obj ps \<Rightarrow> map_of ps k = Some v | Arr xs \<Rightarrow> False)"

text \<open>
  The properties of a target after every key of a source object has been assigned to it,
  in the source's order (lines 110 to 112).
\<close>

definition copy_props :: "props \<Rightarrow> props \<Rightarrow> props" where
  "copy_props sps bps = fold (\<lambda>k. AList.update k (own_prop (Obj sps) k)) (map fst sps) bps"

fun props_of :: "hobj \<Rightarrow> props" where
  "props_of (Obj ps) = ps"
| "props_of (Arr xs) = []"

text \<open>The object a value refers to, if it is a reference.\<close>

definition look :: "heap \<Rightarrow> val \<Rightarrow> hobj option" where
  "look h v = (case v of Ref a \<Rightarrow> Some (deref h a) | _ \<Rightarrow> None)"

text \<open>
  A primitive on which a property assignment is silently dropped: any boolean, number or
  string outside strict mode.
\<close>

fun inert :: "bool \<Rightarrow> val \<Rightarrow> bool" where
  "inert strict (Bool b) = (\<not> strict)"
| "inert strict (Num n) = (\<not> strict)"
| "inert strict NaN = (\<not> strict)"
| "inert strict (Str s) = (\<not> strict)"
| "inert strict t = False"

text \<open>
  What one name of the source has done to the destination in the store \<open>h'\<close>, given
  the source value \<open>v\<close> and the destination value \<open>d\<close> at that name before the
  merge, the objects \<open>sv\<close> and \<open>dv\<close> they referred to, and the size \<open>n\<close> of the
  store before the merge.
\<close>

definition merged ::
  "bool \<Rightarrow> addr \<Rightarrow> string \<Rightarrow> val \<Rightarrow> hobj option \<Rightarrow> val \<Rightarrow> hobj option \<Rightarrow> nat \<Rightarrow> heap \<Rightarrow> bool"
where
  "merged strict dest name v sv d dv n h' =
     (case sv of
        Some (Arr xs) \<Rightarrow>
          (case dv of
             Some (Arr ys) \<Rightarrow>
               (\<exists>c. n \<le> c \<and> has_prop h' dest name (Ref c) \<and> deref h' c = Arr (ys @ xs))
           | _ \<Rightarrow> has_prop h' dest name v)
      | Some (Obj sps) \<Rightarrow>
          (if truthy d then
             has_prop h' dest name d \<and>
             (case dv of
                Some (Obj bps) \<Rightarrow> (\<exists>b. d = Ref b \<and> deref h' b = Obj (copy_props sps bps))
              | _ \<Rightarrow> sps = [] \<or> inert strict d)
           else (\<exists>c. n \<le> c \<and> has_prop h' dest name (Ref c) \<and>
                     deref h' c = Obj (copy_props sps [])))
      | None \<Rightarrow> has_prop h' dest name v)"

definition merged_from :: "bool \<Rightarrow> addr \<Rightarrow> addr \<Rightarrow> string \<Rightarrow> heap \<Rightarrow> heap \<Rightarrow> bool" where
  "merged_from strict src dest name h h' =
     merged strict dest name
       (own_prop (deref h src) name) (look h (own_prop (deref h src) name))
       (own_prop (deref h dest) name) (look h (own_prop (deref h dest) name))
       (length h) h'"

text \<open>
  A name of the destination that a step has left alone: its value, the object the value
  refers to, and the binding itself.
\<close>

definition untouched :: "addr \<Rightarrow> string \<Rightarrow> heap \<Rightarrow> heap \<Rightarrow> bool" where
  "untouched dest name h h' \<longleftrightarrow>
     own_prop (deref h' dest) name = own_prop (deref h dest) name \<and>
     (\<forall>c. own_prop (deref h dest) name = Ref c \<longrightarrow> deref h' c = deref h c) \<and>
     (\<forall>x. has_prop h dest name x \<longrightarrow> has_prop h' dest name x)"

text \<open>
  What a merge leaves alone: every object of the old store other than the destination
  and the plain objects the destination holds directly. Plain objects stay plain, arrays
  stay arrays, and the destination gains no reference to an old plain object.
\<close>

definition framed :: "addr \<Rightarrow> heap \<Rightarrow> heap \<Rightarrow> bool" where
  "framed dest h h' \<longleftrightarrow>
     length h \<le> length h' \<and>
     (\<forall>a<length h. a \<noteq> dest \<and> \<not> (plain h a \<and> a \<in> set (refs_of (deref h dest))) \<longrightarrow>
        deref h' a = deref h a) \<and>
     (\<forall>a<length h. plain h' a = plain h a) \<and>
     (\<forall>a<length h. plain h a \<and> a \<in> set (refs_of (deref h' dest)) \<longrightarrow>
        a \<in> set (refs_of (deref h dest)))"

subsection \<open>Sample stores for the merger\<close>









subsection \<open>When a merge completes\<close>

text \<open>
  A name of the source that the merge can handle in the store \<open>h\<close>: either its value is
  not a plain object with keys, or the destination's value at that name is falsy (an
  object is created), a primitive on which the assignment of line 111 is dropped, or a
  plain object. What is left out is a \<^verbatim>\<open>TypeError\<close> in strict mode and a property
  written onto an array or a function.
\<close>

definition accepts :: "bool \<Rightarrow> heap \<Rightarrow> addr \<Rightarrow> addr \<Rightarrow> string \<Rightarrow> bool" where
  "accepts strict h src dest name =
     (let d = own_prop (deref h dest) name in
      case look h (own_prop (deref h src) name) of
        Some (Obj sps) \<Rightarrow>
          sps = [] \<or> \<not> truthy d \<or> inert strict d \<or>
          (case look h d of Some (Obj bps) \<Rightarrow> True | _ \<Rightarrow> False)
      | _ \<Rightarrow> True)"

subsection \<open>The report and the detectors' results\<close>

text \<open>
  \<open>closed n h\<close>: the first \<open>n\<close> objects of the store refer only to one another, and
  the plain objects among them have unique keys. These are the objects that exist when
  \<^verbatim>\<open>detect\<close> is called, the detectors' results among them.
\<close>

definition closed :: "nat \<Rightarrow> heap \<Rightarrow> bool" where
  "closed n h \<longleftrightarrow>
     n \<le> length h \<and>
     (\<forall>a<n. (\<forall>s\<in>set (refs_of (deref h a)). s < n) \<and>
            (plain h a \<longrightarrow> distinct (own_keys (deref h a))))"

text \<open>
  \<open>report n h results\<close>: the object at \<open>results\<close> is a report built after the first
  \<open>n\<close> objects: it is a plain object with unique keys, and the plain objects it holds
  directly are pairwise distinct objects created after the first \<open>n\<close>.
\<close>

definition report :: "nat \<Rightarrow> heap \<Rightarrow> addr \<Rightarrow> bool" where
  "report n h results \<longleftrightarrow>
     n \<le> results \<and> results < length h \<and> plain h results \<and>
     distinct (own_keys (deref h results)) \<and>
     (\<forall>b\<in>set (refs_of (deref h results)).
        b < length h \<and> (plain h b \<longrightarrow> n \<le> b \<and> b \<noteq> results)) \<and>
     distinct (filter (plain h) (refs_of (deref h results)))"

text \<open>
  The invariant of a run of \<^verbatim>\<open>async.parallel\<close>: the store holds a report, and its
  first \<open>n\<close> objects are those of the store \<open>h0\<close>.
\<close>

definition keeps :: "nat \<Rightarrow> heap \<Rightarrow> addr \<Rightarrow> dstate \<Rightarrow> bool" where
  "keeps n h0 results st \<longleftrightarrow>
     closed n (store st) \<and> report n (store st) results \<and>
     (\<forall>a<n. deref (store st) a = deref h0 a)"

section \<open>Properties of the resolver\<close>

subsection \<open>The two \<^verbatim>\<open>indexOf\<close> tests\<close>

lemma str_index_from_range: "str_index_from s p k = - 1 \<or> int k \<le> str_index_from s p k"
  by (induction s arbitrary: k) (auto, force)

lemma str_index_from_start: "(str_index_from s p k = int k) = starts_with s p"
proof (cases s)
  case Nil
  then show ?thesis by (auto simp: starts_with_def)
next
  case (Cons c s')
  show ?thesis
  proof (cases "starts_with (c # s') p")
    case True
    with Cons show ?thesis by simp
  next
    case False
    from str_index_from_range [of s' p "Suc k"]
    have "str_index_from s' p (Suc k) \<noteq> int k" by auto
    with False Cons show ?thesis by simp
  qed
qed

lemma str_indexOf_zero: "(str_indexOf s p = 0) = starts_with s p"
  using str_index_from_start [of s p 0] by (simp add: str_indexOf_def)

lemma arr_index_from_mem: "(arr_index_from ys x k \<noteq> - 1) = (x \<in> set ys)"
  by (induction ys arbitrary: k) auto

lemma arr_indexOf_mem: "(arr_indexOf ys x \<noteq> - 1) = (x \<in> set ys)"
  by (simp add: arr_indexOf_def arr_index_from_mem)

subsection \<open>The loops as a comprehension\<close>

lemma fold_append_concat: "fold (\<lambda>x acc. acc @ g x) xs acc = acc @ concat (map g xs)"
  by (induction xs arbitrary: acc) auto

lemma forEach_collect:
  assumes "\<And>x acc. f x acc = acc @ g x"
  shows "forEach xs f acc = acc @ concat (map g xs)"
proof -
  have "f = (\<lambda>x acc. acc @ g x)" using assms by (intro ext) simp
  then show ?thesis by (simp add: forEach_def fold_append_concat)
qed

lemma inner_loop:
  "forEach fs (\<lambda>pcert. if str_indexOf pcert pre = 0 then push x else id) acc =
   acc @ concat (map (\<lambda>f. if starts_with f pre then [x] else []) fs)"
  by (rule forEach_collect) (simp add: str_indexOf_zero push_def)

lemma cert_loop:
  "forEach cs (\<lambda>cert. forEach fs (\<lambda>pcert.
       if str_indexOf pcert (cert_prefix cert) = 0 then push (mk p cert) else id)) acc =
   acc @ concat (map (\<lambda>c. concat (map (\<lambda>f.
       if starts_with f (cert_prefix c) then [mk p c] else []) fs)) cs)"
  by (rule forEach_collect) (simp add: inner_loop)

lemma device_loop:
  "forEach devices (\<lambda>device.
      if (case pp_devices p of None \<Rightarrow> False
          | Some ds \<Rightarrow> arr_indexOf ds (dev_udid device) \<noteq> - 1)
      then forEach certs (\<lambda>cert. forEach (pp_certs p) (\<lambda>pcert.
             if str_indexOf pcert (cert_prefix cert) = 0
             then push (mk_combo p cert device) else id))
      else id) acc
   = acc @ concat (map (\<lambda>d. if authorizes p d then
        concat (map (\<lambda>c. concat (map (\<lambda>f.
          if starts_with f (cert_prefix c) then [mk_combo p c d] else []) (pp_certs p))) certs)
        else []) devices)"
  apply (rule forEach_collect)
  apply (simp add: authorizes_def arr_indexOf_mem split: option.splits)
  apply (intro conjI impI allI)
  apply (rule cert_loop [where mk = "\<lambda>p c. mk_combo p c d" for d])
  done

lemma combos_of_in_order:
  "combos_of profiles devices certs = combos_in_order profiles devices certs"
  unfolding combos_of_def combos_in_order_def
  apply (subst forEach_collect [where g = "\<lambda>p. concat (map (\<lambda>d. if authorizes p d then
        concat (map (\<lambda>c. concat (map (\<lambda>f.
          if starts_with f (cert_prefix c) then [mk_combo p c d] else []) (pp_certs p))) certs)
        else []) devices)"])
   apply (rule device_loop)
  apply simp
  done

lemma set_combos_in_order:
  "x \<in> set (combos_in_order profiles devices certs) \<longleftrightarrow>
     (\<exists>p\<in>set profiles. \<exists>d\<in>set devices. \<exists>c\<in>set certs.
        authorizes p d \<and> (\<exists>f\<in>set (pp_certs p). starts_with f (cert_prefix c)) \<and>
        x = mk_combo p c d)"
  by (auto simp: combos_in_order_def)

lemma authorizes_iff:
  "authorizes p d \<longleftrightarrow> (\<exists>ds. pp_devices p = Some ds \<and> dev_udid d \<in> set ds)"
  by (simp add: authorizes_def split: option.splits)

subsection \<open>The sample environment, evaluated\<close>

lemma ex_flat: "flatten_certs ex_keychains = [ex_cert]"
  by (simp add: flatten_certs_def ex_keychains_def forEach_def)

lemma ex_norm: "normalize_args [] Undefined (Fn (UserFn 0)) = ([Obj []], Ref 0, Fn (UserFn 0))"
  by (simp add: normalize_args_def alloc_def)

lemma ex_member: "member [Obj []] (Ref 0) ''appId'' = Inr Undefined"
  by (simp add: deref_def)

subsection \<open>Which combos are emitted\<close>

lemma resolver_success:
  assumes "device_detect w = Some devices" and "devices \<noteq> []"
    and "certs_detect w = Some ks" and "flatten_certs ks \<noteq> []"
    and "normalize_args h options callback = (h1, options1, callback1)"
    and "member h1 options1 ''appId'' = Inr app"
    and "provisioning_find w \<lparr>q_appId = app, q_certs = flatten_certs ks,
            q_devicesUDIDs = map dev_udid devices\<rparr> = Some profiles"
    and "profiles \<noteq> []"
  shows "outcome (findValidDeviceCertProfileCombos w h options callback) =
           CallbackOk (combos_of profiles devices (flatten_certs ks))"
  using assms by (simp add: findValidDeviceCertProfileCombos_def Let_def)

text \<open>
  Claim C1, with the key the code writes. When the device list, the flattened
  certificate list and the list of matching profiles are all non-empty, the callback
  receives a list of combos, and a combo is in that list exactly when some profile,
  some device and some certificate exist such that the device's udid is in the
  profile's device list, some fingerprint in the profile's certificate list starts
  with the first 60 characters of the certificate's pem after the header line is
  stripped, and the combo is
  \<^verbatim>\<open>{ ppUUID: profile.uuid, certName: cert.name, deviceUDID: device.udid }\<close>.
  The key of the first field is \<^verbatim>\<open>ppUUID\<close> (line 228), not \<^verbatim>\<open>profileUUID\<close>.
\<close>

theorem resolver_combo_iff:
  assumes "device_detect w = Some devices" and "devices \<noteq> []"
    and "certs_detect w = Some ks" and "flatten_certs ks \<noteq> []"
    and "normalize_args h options callback = (h1, options1, callback1)"
    and "member h1 options1 ''appId'' = Inr app"
    and "provisioning_find w \<lparr>q_appId = app, q_certs = flatten_certs ks,
            q_devicesUDIDs = map dev_udid devices\<rparr> = Some profiles"
    and "profiles \<noteq> []"
  shows "\<exists>combos.
      outcome (findValidDeviceCertProfileCombos w h options callback) = CallbackOk combos \<and>
      (\<forall>x. x \<in> set combos \<longleftrightarrow>
         (\<exists>p\<in>set profiles. \<exists>d\<in>set devices. \<exists>c\<in>set (flatten_certs ks).
            (\<exists>ds. pp_devices p = Some ds \<and> dev_udid d \<in> set ds) \<and>
            (\<exists>f\<in>set (pp_certs p). starts_with f (take 60 (strip_header (cert_pem c)))) \<and>
            x = [(''ppUUID'', pp_uuid p), (''certName'', cert_name c),
                 (''deviceUDID'', dev_udid d)]))"
proof -
  have pre: "\<And>c. cert_prefix c = take 60 (strip_header (cert_pem c))"
    by (simp add: cert_prefix_def substring_def)
  show ?thesis
    unfolding resolver_success [OF assms] combos_of_in_order
    by (simp add: set_combos_in_order authorizes_iff pre mk_combo_def)
qed

theorem resolver_combo_iff_witness:
  "\<exists>combos.
     outcome (findValidDeviceCertProfileCombos ex_world [] Undefined (Fn (UserFn 0))) =
       CallbackOk combos \<and>
     (\<forall>x. x \<in> set combos \<longleftrightarrow>
         (\<exists>p\<in>set [ex_profile]. \<exists>d\<in>set [ex_device]. \<exists>c\<in>set (flatten_certs ex_keychains).
            (\<exists>ds. pp_devices p = Some ds \<and> dev_udid d \<in> set ds) \<and>
            (\<exists>f\<in>set (pp_certs p). starts_with f (take 60 (strip_header (cert_pem c)))) \<and>
            x = [(''ppUUID'', pp_uuid p), (''certName'', cert_name c),
                 (''deviceUDID'', dev_udid d)]))"
proof (rule resolver_combo_iff)
  show "device_detect ex_world = Some [ex_device]" by (simp add: ex_world_def)
  show "[ex_device] \<noteq> []" by simp
  show "certs_detect ex_world = Some ex_keychains" by (simp add: ex_world_def)
  show "flatten_certs ex_keychains \<noteq> []" by (simp add: ex_flat)
  show "normalize_args [] Undefined (Fn (UserFn 0)) = ([Obj []], Ref 0, Fn (UserFn 0))"
    by (rule ex_norm)
  show "member [Obj []] (Ref 0) ''appId'' = Inr Undefined" by (rule ex_member)
  show "provisioning_find ex_world \<lparr>q_appId = Undefined, q_certs = flatten_certs ex_keychains,
            q_devicesUDIDs = map dev_udid [ex_device]\<rparr> = Some [ex_profile]"
    by (simp add: ex_world_def)
  show "[ex_profile] \<noteq> []" by simp
qed

text \<open>
  The claim as written gives the combo the key \<^verbatim>\<open>profileUUID\<close>. On the sample
  environment the one combo emitted has the keys \<^verbatim>\<open>ppUUID\<close>, \<^verbatim>\<open>certName\<close>,
  \<^verbatim>\<open>deviceUDID\<close> and no key \<^verbatim>\<open>profileUUID\<close>.
\<close>

theorem resolver_combo_shape_counterexample:
  "outcome (findValidDeviceCertProfileCombos ex_world [] Undefined (Fn (UserFn 0))) =
     CallbackOk [[(''ppUUID'', ''P1''), (''certName'', ''Dev1''), (''deviceUDID'', ''D1'')]] \<and>
   map fst [(''ppUUID'', ''P1''), (''certName'', ''Dev1''), (''deviceUDID'', ''D1'')] \<noteq>
     [''profileUUID'', ''certName'', ''deviceUDID''] \<and>
   map_of [(''ppUUID'', ''P1''), (''certName'', ''Dev1''), (''deviceUDID'', ''D1'')]
     ''profileUUID'' = None"
  by code_simp

subsection \<open>The three precondition failures\<close>

text \<open>
  Claim C3. An empty device list ends the run with the callback receiving the error
  \<^verbatim>\<open>No iOS devices connected\<close>, and neither \<^verbatim>\<open>certs.detect\<close> nor
  \<^verbatim>\<open>provisioning.find\<close> has been called. With devices present, an empty flattened
  certificate list ends it with \<^verbatim>\<open>No iOS certificates\<close> before
  \<^verbatim>\<open>provisioning.find\<close> is called. With devices and certificates present, an empty
  profile list ends it with \<^verbatim>\<open>No provisioning profiles found\<close>. In each case the
  callback receives the error and no combo list.
\<close>

theorem resolver_preconditions:
  assumes "normalize_args h options callback = (h1, options1, callback1)"
    and "member h1 options1 ''appId'' = Inr app"
    and "r = findValidDeviceCertProfileCombos w h options callback"
  shows "(device_detect w = Some [] \<longrightarrow>
            outcome r = CallbackError ''No iOS devices connected'' \<and> calls r = [DeviceDetect])
       \<and> (device_detect w = Some devices \<and> devices \<noteq> [] \<and>
          certs_detect w = Some ks \<and> flatten_certs ks = [] \<longrightarrow>
            outcome r = CallbackError ''No iOS certificates'' \<and>
            calls r = [DeviceDetect, CertsDetect])
       \<and> (device_detect w = Some devices \<and> devices \<noteq> [] \<and>
          certs_detect w = Some ks \<and> flatten_certs ks \<noteq> [] \<and>
          q = \<lparr>q_appId = app, q_certs = flatten_certs ks,
               q_devicesUDIDs = map dev_udid devices\<rparr> \<and>
          provisioning_find w q = Some [] \<longrightarrow>
            outcome r = CallbackError ''No provisioning profiles found'' \<and>
            calls r = [DeviceDetect, CertsDetect, ProvisioningFind q])"
  using assms by (auto simp add: findValidDeviceCertProfileCombos_def Let_def)

theorem resolver_preconditions_witness:
  "outcome (findValidDeviceCertProfileCombos ex_no_devices [] Undefined (Fn (UserFn 0))) =
      CallbackError ''No iOS devices connected''
   \<and> calls (findValidDeviceCertProfileCombos ex_no_devices [] Undefined (Fn (UserFn 0))) =
      [DeviceDetect]
   \<and> outcome (findValidDeviceCertProfileCombos ex_no_certs [] Undefined (Fn (UserFn 0))) =
      CallbackError ''No iOS certificates''
   \<and> calls (findValidDeviceCertProfileCombos ex_no_certs [] Undefined (Fn (UserFn 0))) =
      [DeviceDetect, CertsDetect]
   \<and> outcome (findValidDeviceCertProfileCombos ex_no_profiles [] Undefined (Fn (UserFn 0))) =
      CallbackError ''No provisioning profiles found''
   \<and> calls (findValidDeviceCertProfileCombos ex_no_profiles [] Undefined (Fn (UserFn 0))) =
      [DeviceDetect, CertsDetect,
       ProvisioningFind \<lparr>q_appId = Undefined, q_certs = [ex_cert], q_devicesUDIDs = [''D1'']\<rparr>]"
proof -
  have d: "device_detect ex_no_devices = Some []" by (simp add: ex_no_devices_def)
  have c: "device_detect ex_no_certs = Some [ex_device] \<and> [ex_device] \<noteq> [] \<and>
      certs_detect ex_no_certs = Some [(''login'', [(''developer'', [])]), (''System'', [])] \<and>
      flatten_certs [(''login'', [(''developer'', [])]), (''System'', [])] = []"
    by (simp add: ex_no_certs_def ex_world_def flatten_certs_def forEach_def)
  have p: "device_detect ex_no_profiles = Some [ex_device] \<and> [ex_device] \<noteq> [] \<and>
      certs_detect ex_no_profiles = Some ex_keychains \<and> flatten_certs ex_keychains \<noteq> [] \<and>
      \<lparr>q_appId = Undefined, q_certs = [ex_cert], q_devicesUDIDs = [''D1'']\<rparr> =
        \<lparr>q_appId = Undefined, q_certs = flatten_certs ex_keychains,
         q_devicesUDIDs = map dev_udid [ex_device]\<rparr> \<and>
      provisioning_find ex_no_profiles
        \<lparr>q_appId = Undefined, q_certs = [ex_cert], q_devicesUDIDs = [''D1'']\<rparr> = Some []"
    by (simp add: ex_no_profiles_def ex_world_def ex_flat ex_device_def)
  from resolver_preconditions [OF ex_norm ex_member refl, of ex_no_devices] d
  have 1: "outcome (findValidDeviceCertProfileCombos ex_no_devices [] Undefined (Fn (UserFn 0))) =
      CallbackError ''No iOS devices connected''
   \<and> calls (findValidDeviceCertProfileCombos ex_no_devices [] Undefined (Fn (UserFn 0))) =
      [DeviceDetect]" by blast
  from resolver_preconditions [OF ex_norm ex_member refl, of ex_no_certs "[ex_device]"
      "[(''login'', [(''developer'', [])]), (''System'', [])]"] c
  have 2: "outcome (findValidDeviceCertProfileCombos ex_no_certs [] Undefined (Fn (UserFn 0))) =
      CallbackError ''No iOS certificates''
   \<and> calls (findValidDeviceCertProfileCombos ex_no_certs [] Undefined (Fn (UserFn 0))) =
      [DeviceDetect, CertsDetect]" by blast
  from resolver_preconditions [OF ex_norm ex_member refl, of ex_no_profiles "[ex_device]"
      ex_keychains
      "\<lparr>q_appId = Undefined, q_certs = [ex_cert], q_devicesUDIDs = [''D1'']\<rparr>"] p
  have 3: "outcome (findValidDeviceCertProfileCombos ex_no_profiles [] Undefined (Fn (UserFn 0))) =
      CallbackError ''No provisioning profiles found''
   \<and> calls (findValidDeviceCertProfileCombos ex_no_profiles [] Undefined (Fn (UserFn 0))) =
      [DeviceDetect, CertsDetect,
       ProvisioningFind \<lparr>q_appId = Undefined, q_certs = [ex_cert], q_devicesUDIDs = [''D1'']\<rparr>]"
    by blast
  from 1 2 3 show ?thesis by simp
qed

subsection \<open>Order of emission\<close>

lemma concat_if_replicate:
  "concat (map (\<lambda>f. if P f then [x] else []) fs) = replicate (length (filter P fs)) x"
  by (induction fs) auto

text \<open>
  Claim C8. The combos come out in the order of the nested loops: profiles outermost,
  then devices, then certificates, then the profile's embedded fingerprints. Nothing is
  removed: for one profile, one device and one certificate the combo appears once for
  every fingerprint of the profile that matches, so a profile that embeds a matching
  fingerprint twice yields the combo twice.
\<close>

theorem resolver_emission_order:
  "combos_of profiles devices certs =
     [mk_combo p c d.
        p \<leftarrow> profiles,
        d \<leftarrow> devices, authorizes p d,
        c \<leftarrow> certs,
        f \<leftarrow> pp_certs p, starts_with f (cert_prefix c)]
   \<and> combos_of [p] [d] [c] =
       (if authorizes p d
        then replicate (length (filter (\<lambda>f. starts_with f (cert_prefix c)) (pp_certs p)))
               (mk_combo p c d)
        else [])
   \<and> combos_of [ex_profile\<lparr>pp_certs := [ex_body @ ''XYZ'', ex_body @ ''XYZ'']\<rparr>]
        [ex_device] [ex_cert] =
       [mk_combo ex_profile ex_cert ex_device, mk_combo ex_profile ex_cert ex_device]"
proof (intro conjI)
  show "combos_of profiles devices certs =
     [mk_combo p c d. p \<leftarrow> profiles, d \<leftarrow> devices, authorizes p d, c \<leftarrow> certs,
        f \<leftarrow> pp_certs p, starts_with f (cert_prefix c)]"
    by (simp add: combos_of_in_order combos_in_order_def)
  show "combos_of [p] [d] [c] =
       (if authorizes p d
        then replicate (length (filter (\<lambda>f. starts_with f (cert_prefix c)) (pp_certs p)))
               (mk_combo p c d)
        else [])"
    by (simp add: combos_of_in_order combos_in_order_def concat_if_replicate)
  show "combos_of [ex_profile\<lparr>pp_certs := [ex_body @ ''XYZ'', ex_body @ ''XYZ'']\<rparr>]
        [ex_device] [ex_cert] =
       [mk_combo ex_profile ex_cert ex_device, mk_combo ex_profile ex_cert ex_device]"
    by code_simp
qed

subsection \<open>Argument normalisation\<close>

lemma member_truthy: "truthy v \<Longrightarrow> \<exists>x. member h v k = Inr x"
  by (cases v) auto

text \<open>
  Claim C10. For every pair of arguments the normalisation returns: nothing in lines
  179 to 185 can throw, so the model has no error result there. Afterwards the callback
  is a function and the options value is truthy, so reading \<^verbatim>\<open>options.appId\<close> later
  does not throw either. When the first argument is a function it becomes the callback
  and the options are a fresh empty object; otherwise falsy options are replaced by a
  fresh empty object, truthy ones are kept, and a callback that is not a function is
  replaced by the no-op.
\<close>

theorem normalize_args_completes:
  "\<exists>h' options' callback'.
     normalize_args h options callback = (h', options', callback') \<and>
     typeof callback' = ''function'' \<and> truthy options' \<and>
     (\<exists>v. member h' options' ''appId'' = Inr v) \<and>
     (if typeof options = ''function'' then
        callback' = options \<and> options' = Ref (length h) \<and> h' = h @ [Obj []]
      else
        callback' = (if typeof callback = ''function'' then callback else Fn Noop) \<and>
        (if truthy options then options' = options \<and> h' = h
         else options' = Ref (length h) \<and> h' = h @ [Obj []]))"
  by (auto simp: normalize_args_def alloc_def Let_def member_truthy)

section \<open>Properties of the orchestrator\<close>

lemma detector_UNIV: "(UNIV :: detector set) = set tasks"
proof -
  have "\<And>d. d \<in> set tasks" subgoal for d by (cases d) (simp_all add: tasks_def) done
  then show ?thesis by auto
qed

lemma distinct_detectors_le: "distinct (ds :: detector list) \<Longrightarrow> length ds \<le> 6"
proof -
  assume d: "distinct ds"
  have "set ds \<subseteq> set tasks" using detector_UNIV by auto
  then have "card (set ds) \<le> card (set tasks)"
    by (rule card_mono [OF finite_set])
  also have "\<dots> \<le> length tasks" by (rule card_length)
  finally show ?thesis using d by (simp add: distinct_card tasks_def)
qed

lemma forEachE_append:
  "forEachE (xs @ ys) f s =
     (case forEachE xs f s of Inl e \<Rightarrow> Inl e | Inr s' \<Rightarrow> forEachE ys f s')"
  by (induction xs arbitrary: s) (auto split: sum.splits)

lemma merge_all_Nil [simp]: "merge_all strict results [] h = Inr h"
  by (simp add: merge_all_def)

lemma merge_all_Cons:
  "merge_all strict results (r # rs) h =
     (case mix strict r results h of Inl e \<Rightarrow> Inl e | Inr h' \<Rightarrow> merge_all strict results rs h')"
  by (simp add: merge_all_def split: sum.splits)

lemma run_parallel_prefix:
  assumes "\<forall>c\<in>set pre. \<not> truthy (fst (snd c))"
    and "merge_all strict results (map (\<lambda>c. snd (snd c)) pre) (store st) = Inr h'"
    and "length pre < pending"
  shows "run_parallel strict listens results (pre @ rest) pending False st =
         run_parallel strict listens results rest (pending - length pre) False (st\<lparr>store := h'\<rparr>)"
  using assms
proof (induction pre arbitrary: pending st)
  case Nil
  then show ?case by (cases st) simp
next
  case (Cons c pre)
  obtain d err r where c: "c = (d, err, r)" by (cases c) auto
  from Cons.prems c obtain h1 where
    m: "mix strict r results (store st) = Inr h1"
    and rest: "merge_all strict results (map (\<lambda>c. snd (snd c)) pre) h1 = Inr h'"
    by (auto simp: merge_all_Cons split: sum.splits)
  from Cons.prems c have e: "\<not> truthy err" by simp
  from Cons.prems have p: "pending - 1 \<noteq> 0" "length pre < pending - 1" by auto
  from Cons.prems have all: "\<forall>c\<in>set pre. \<not> truthy (fst (snd c))" by simp
  have "run_parallel strict listens results ((c # pre) @ rest) pending False st =
        run_parallel strict listens results (pre @ rest) (pending - 1) False (st\<lparr>store := h1\<rparr>)"
    using c e m p by simp
  also have "\<dots> = run_parallel strict listens results rest (pending - 1 - length pre) False
                      (st\<lparr>store := h1, store := h'\<rparr>)"
    using Cons.IH [of "st\<lparr>store := h1\<rparr>" "pending - 1"] all rest p by simp
  finally show ?case by simp
qed

lemma run_parallel_called:
  "cache (run_parallel strict listens results sched pending True st) = cache st \<and>
   (\<exists>es. log (run_parallel strict listens results sched pending True st) = log st @ es \<and>
         (es = [] \<or> (\<exists>e. es = [Threw e])))"
proof (induction sched arbitrary: pending st)
  case Nil
  show ?case by simp
next
  case (Cons c sched)
  obtain d err r where c: "c = (d, err, r)" by (cases c) auto
  show ?case
  proof (cases "truthy err")
    case True
    with c Cons.IH [of "pending - 1" st] show ?thesis by simp
  next
    case False
    show ?thesis
    proof (cases "mix strict r results (store st)")
      case (Inl e)
      with False c show ?thesis by (simp add: say_def)
    next
      case (Inr h1)
      with False c Cons.IH [of "pending - 1" "st\<lparr>store := h1\<rparr>"] show ?thesis by simp
    qed
  qed
qed

lemma run_parallel_success:
  assumes "\<forall>c\<in>set sched. \<not> truthy (fst (snd c))"
    and "merge_all strict results (map (\<lambda>c. snd (snd c)) sched) (store st) = Inr h'"
    and "length sched = pending" and "0 < pending"
  shows "run_parallel strict listens results sched pending False st =
         say [Stored (Ref results), Emitted ''detected'' (Ref results), CalledBack Null (Ref results)]
           (st\<lparr>store := h', cache := Ref results\<rparr>)"
proof -
  from assms obtain pre c where s: "sched = pre @ [c]"
    by (cases sched rule: rev_cases) auto
  obtain d err r where c: "c = (d, err, r)" by (cases c) auto
  from assms s have pre: "\<forall>c\<in>set pre. \<not> truthy (fst (snd c))" and e: "\<not> truthy err"
    using c by auto
  have split: "merge_all strict results (map (\<lambda>c. snd (snd c)) sched) (store st) =
      (case merge_all strict results (map (\<lambda>c. snd (snd c)) pre) (store st) of
         Inl e \<Rightarrow> Inl e | Inr h1 \<Rightarrow> mix strict r results h1)"
    unfolding s c merge_all_def
    by (simp add: forEachE_append split: sum.splits)
  with assms obtain h1 where
    m1: "merge_all strict results (map (\<lambda>c. snd (snd c)) pre) (store st) = Inr h1"
    and m2: "mix strict r results h1 = Inr h'"
    by (auto split: sum.splits)
  from assms s have len: "length pre < pending" "pending - length pre = 1" by auto
  show ?thesis
    unfolding s
    by (simp add: run_parallel_prefix [OF pre m1 len(1)] len(2) c e m2 say_def)
qed

subsection \<open>A failing detector\<close>

text \<open>
  Claim C2. Take a run in which the detectors were started (the cache was empty or
  bypassed) and in which some detector calls back with an error: the completions before
  it passed no error and their results were merged without an exception. Each detector
  calls back at most once, and the emitter has a listener for \<^verbatim>\<open>error\<close>. Then the
  cache holds what it held before the call, and after the six detectors were invoked the
  run emits \<^verbatim>\<open>error\<close> and calls the callback once, with that error and no report:
  nothing follows but possibly an exception from merging a later result. The cache is
  never assigned.
\<close>

theorem detect_failure:
  assumes "cache_hit options st = Inr False"
    and "fresh_report (store st) = (h, results)"
    and "sched = pre @ (d, err, r) # post"
    and "distinct (map fst sched)"
    and "\<forall>c\<in>set pre. \<not> truthy (fst (snd c))"
    and "merge_all strict results (map (\<lambda>c. snd (snd c)) pre) h = Inr h'"
    and "truthy err"
    and "listens ''error''"
  shows "cache (detect strict listens options sched st) = cache st \<and>
         (\<exists>es. log (detect strict listens options sched st) =
                 log st @ map Invoked tasks @
                 [Emitted ''error'' err, CalledBack err Undefined] @ es \<and>
               (es = [] \<or> (\<exists>e. es = [Threw e])))"
proof -
  let ?st1 = "say (map Invoked tasks) (st\<lparr>store := h\<rparr>)"
  let ?st2 = "say [Emitted ''error'' err, CalledBack err Undefined] (?st1\<lparr>store := h'\<rparr>)"
  from assms(3,4) have "length (map fst sched) \<le> 6" by (intro distinct_detectors_le)
  with assms(3) have len: "length pre < length tasks" by (simp add: tasks_def)
  have m: "merge_all strict results (map (\<lambda>c. snd (snd c)) pre) (store ?st1) = Inr h'"
    using assms(6) by (simp add: say_def)
  have a: "detect strict listens options sched st =
      run_parallel strict listens results sched (length tasks) False ?st1"
    using assms(1,2) by (simp add: detect_def)
  have b: "run_parallel strict listens results (pre @ (d, err, r) # post) (length tasks) False ?st1 =
      run_parallel strict listens results ((d, err, r) # post) (length tasks - length pre) False
        (?st1\<lparr>store := h'\<rparr>)"
    by (rule run_parallel_prefix [OF assms(5) m len])
  have c: "run_parallel strict listens results ((d, err, r) # post) (length tasks - length pre) False
        (?st1\<lparr>store := h'\<rparr>) =
      run_parallel strict listens results post (length tasks - length pre - 1) True ?st2"
    using assms(7,8) by simp
  have run: "detect strict listens options sched st =
      run_parallel strict listens results post (length tasks - length pre - 1) True ?st2"
    using a b c by (simp only: assms(3))
  from run_parallel_called [of strict listens results post "length tasks - length pre - 1" ?st2]
  show ?thesis unfolding run by (auto simp: say_def)
qed


theorem detect_failure_witness:
  "cache (detect True (\<lambda>ev. True) (Ref 5) ex_one_fails ex_warm) = cache ex_warm \<and>
   (\<exists>es. log (detect True (\<lambda>ev. True) (Ref 5) ex_one_fails ex_warm) =
           log ex_warm @ map Invoked tasks @
           [Emitted ''error'' (Str ''boom''), CalledBack (Str ''boom'') Undefined] @ es \<and>
         (es = [] \<or> (\<exists>e. es = [Threw e])))"
proof (rule detect_failure)
  show "cache_hit (Ref 5) ex_warm = Inr False" by code_simp
  show "fresh_report (store ex_warm) =
     (ex_store @ [Arr [], Obj [(''detectVersion'', Str ''4.0''), (''issues'', Ref 7)]], 8)"
    by code_simp
  show "ex_one_fails = [(Devices, Null, 3), (Certificates, Null, 1)] @
      (Environment, Str ''boom'', 6) #
      [(Xcodes, Null, 6), (Simulators, Str ''late'', 6), (ProvisioningProfiles, Null, 6)]"
    by (simp add: ex_one_fails_def)
  show "distinct (map fst ex_one_fails)" by (simp add: ex_one_fails_def)
  show "\<forall>c\<in>set [(Devices, Null, 3), (Certificates, Null, 1)]. \<not> truthy (fst (snd c))"
    by simp
  show "merge_all True 8 (map (\<lambda>c. snd (snd c)) [(Devices, Null, 3), (Certificates, Null, 1)])
      (ex_store @ [Arr [], Obj [(''detectVersion'', Str ''4.0''), (''issues'', Ref 7)]]) =
    Inr [Obj [(''detectVersion'', Str ''4.0'')],
      Obj [(''certs'', Ref 2), (''issues'', Ref 4)],
      Obj [(''wwdr'', Bool True)], Obj [(''devices'', Ref 4)], Arr [],
      Obj [(''bypassCache'', Bool True)], Obj [], Arr [],
      Obj [(''detectVersion'', Str ''4.0''), (''issues'', Ref 10),
           (''devices'', Ref 4), (''certs'', Ref 9)],
      Obj [(''wwdr'', Bool True)], Arr []]"
    by code_simp
  show "truthy (Str ''boom'')" by simp
  show "True" ..
qed

subsection \<open>The cache\<close>

lemma count_invoked: "count_list (map Invoked tasks) (Invoked d) = Suc 0"
  by (cases d) (simp_all add: tasks_def)

lemma detect_hit:
  assumes "truthy (cache st)" and "member (store st) options ''bypassCache'' = Inr b"
    and "\<not> truthy b"
  shows "detect strict listens options sched st =
         say [Emitted ''detected'' (cache st), CalledBack Null (cache st)] st"
  using assms by (simp add: detect_def cache_hit_def)

lemma detect_success:
  assumes "cache_hit options st = Inr False" and "fresh_report (store st) = (h, results)"
    and "length sched = length tasks" and "\<forall>c\<in>set sched. \<not> truthy (fst (snd c))"
    and "merge_all strict results (map (\<lambda>c. snd (snd c)) sched) h = Inr h'"
  shows "detect strict listens options sched st =
         say [Stored (Ref results), Emitted ''detected'' (Ref results),
              CalledBack Null (Ref results)]
           (say (map Invoked tasks) (st\<lparr>store := h', cache := Ref results\<rparr>))"
proof -
  let ?st1 = "say (map Invoked tasks) (st\<lparr>store := h\<rparr>)"
  have m: "merge_all strict results (map (\<lambda>c. snd (snd c)) sched) (store ?st1) = Inr h'"
    using assms(5) by (simp add: say_def)
  have p: "0 < length tasks" by (simp add: tasks_def)
  have a: "detect strict listens options sched st =
      run_parallel strict listens results sched (length tasks) False ?st1"
    using assms(1,2) by (simp add: detect_def)
  show ?thesis
    unfolding a run_parallel_success [OF assms(4) m assms(3) p]
    by (simp add: say_def)
qed

lemma detect_twice:
  assumes "cache_hit options st = Inr False" and "fresh_report (store st) = (h, results)"
    and "length sched = length tasks" and "\<forall>c\<in>set sched. \<not> truthy (fst (snd c))"
    and "merge_all strict results (map (\<lambda>c. snd (snd c)) sched) h = Inr h'"
    and "member h' options2 ''bypassCache'' = Inr b2" and "\<not> truthy b2"
  shows "log (detect strict listens options2 sched2 (detect strict listens options sched st)) =
               log st @ map Invoked tasks @
               [Stored (Ref results), Emitted ''detected'' (Ref results),
                CalledBack Null (Ref results),
                Emitted ''detected'' (Ref results), CalledBack Null (Ref results)]"
proof -
  let ?st1 = "detect strict listens options sched st"
  have s1: "?st1 = say [Stored (Ref results), Emitted ''detected'' (Ref results),
               CalledBack Null (Ref results)]
            (say (map Invoked tasks) (st\<lparr>store := h', cache := Ref results\<rparr>))"
    by (rule detect_success [OF assms(1-5)])
  have t: "truthy (cache ?st1)" by (simp add: s1 say_def)
  have m: "member (store ?st1) options2 ''bypassCache'' = Inr b2"
    using assms(6) by (simp add: s1 say_def)
  show ?thesis
    unfolding detect_hit [OF t m assms(7)] by (simp add: s1 say_def)
qed

text \<open>
  Claim C4. With a truthy cache and a falsy \<^verbatim>\<open>options.bypassCache\<close>, the call emits
  \<^verbatim>\<open>detected\<close> and calls back with the cached report: no detector is invoked and
  the store is untouched. A pass that starts the detectors and in which all six succeed
  assigns the assembled report to the cache, then emits it, then calls back with it. A
  second call without \<^verbatim>\<open>bypassCache\<close> after such a pass calls back with the same
  report, and over the two calls every detector has been invoked exactly once.
\<close>

theorem detect_cache:
  "(truthy (cache st) \<and> member (store st) options ''bypassCache'' = Inr b \<and> \<not> truthy b \<longrightarrow>
      detect strict listens options sched st =
        say [Emitted ''detected'' (cache st), CalledBack Null (cache st)] st)
   \<and> (cache_hit options st = Inr False \<and> fresh_report (store st) = (h, results) \<and>
      length sched = length tasks \<and> (\<forall>c\<in>set sched. \<not> truthy (fst (snd c))) \<and>
      merge_all strict results (map (\<lambda>c. snd (snd c)) sched) h = Inr h' \<longrightarrow>
        detect strict listens options sched st =
          say [Stored (Ref results), Emitted ''detected'' (Ref results),
               CalledBack Null (Ref results)]
            (say (map Invoked tasks) (st\<lparr>store := h', cache := Ref results\<rparr>))
        \<and> (member h' options2 ''bypassCache'' = Inr b2 \<and> \<not> truthy b2 \<longrightarrow>
             log (detect strict listens options2 sched2 (detect strict listens options sched st)) =
               log st @ map Invoked tasks @
               [Stored (Ref results), Emitted ''detected'' (Ref results),
                CalledBack Null (Ref results),
                Emitted ''detected'' (Ref results), CalledBack Null (Ref results)]
             \<and> (\<forall>d. count_list
                    (drop (length (log st))
                      (log (detect strict listens options2 sched2
                             (detect strict listens options sched st))))
                    (Invoked d) = 1)))"
proof (intro conjI impI, goal_cases)
  case 1
  then show ?case by (simp add: detect_hit)
next
  case 2
  then show ?case by (simp add: detect_success)
next
  case 3
  then show ?case by (simp add: detect_twice)
next
  case 4
  then have "log (detect strict listens options2 sched2 (detect strict listens options sched st)) =
               log st @ map Invoked tasks @
               [Stored (Ref results), Emitted ''detected'' (Ref results),
                CalledBack Null (Ref results),
                Emitted ''detected'' (Ref results), CalledBack Null (Ref results)]"
    by (simp add: detect_twice)
  then show ?case by (simp add: count_invoked)
qed


theorem detect_cache_witness:
  "detect True (\<lambda>ev. True) (Ref 6) ex_one_fails ex_warm =
     say [Emitted ''detected'' (Ref 0), CalledBack Null (Ref 0)] ex_warm
   \<and> cache (detect True (\<lambda>ev. True) (Ref 6) ex_all_ok ex_cold) = Ref 8
   \<and> log (detect True (\<lambda>ev. True) (Ref 6) ex_one_fails
            (detect True (\<lambda>ev. True) (Ref 6) ex_all_ok ex_cold)) =
       map Invoked tasks @
       [Stored (Ref 8), Emitted ''detected'' (Ref 8), CalledBack Null (Ref 8),
        Emitted ''detected'' (Ref 8), CalledBack Null (Ref 8)]
   \<and> count_list
        (log (detect True (\<lambda>ev. True) (Ref 6) ex_one_fails
               (detect True (\<lambda>ev. True) (Ref 6) ex_all_ok ex_cold)))
        (Invoked Xcodes) = 1"
proof -
  let ?h = "ex_store @ [Arr [], Obj [(''detectVersion'', Str ''4.0''), (''issues'', Ref 7)]]"
  let ?h' = "[Obj [(''detectVersion'', Str ''4.0'')],
      Obj [(''certs'', Ref 2), (''issues'', Ref 4)],
      Obj [(''wwdr'', Bool True)], Obj [(''devices'', Ref 4)], Arr [],
      Obj [(''bypassCache'', Bool True)], Obj [], Arr [],
      Obj [(''detectVersion'', Str ''4.0''), (''issues'', Ref 10),
           (''devices'', Ref 4), (''certs'', Ref 9)],
      Obj [(''wwdr'', Bool True)], Arr []]"
  have hit: "truthy (cache ex_warm) \<and>
      member (store ex_warm) (Ref 6) ''bypassCache'' = Inr Undefined \<and> \<not> truthy Undefined"
    by code_simp
  have miss: "cache_hit (Ref 6) ex_cold = Inr False \<and> fresh_report (store ex_cold) = (?h, 8) \<and>
      length ex_all_ok = length tasks \<and> (\<forall>c\<in>set ex_all_ok. \<not> truthy (fst (snd c))) \<and>
      merge_all True 8 (map (\<lambda>c. snd (snd c)) ex_all_ok) ?h = Inr ?h'"
    by code_simp
  have again: "member ?h' (Ref 6) ''bypassCache'' = Inr Undefined \<and> \<not> truthy Undefined"
    by code_simp
  note t1 = detect_cache [of ex_warm "Ref 6" Undefined True "\<lambda>ev. True" ex_one_fails
      ?h 8 ?h' "Ref 6" Undefined ex_one_fails]
  note t2 = detect_cache [of ex_cold "Ref 6" Undefined True "\<lambda>ev. True" ex_all_ok
      ?h 8 ?h' "Ref 6" Undefined ex_one_fails]
  from t1 hit have 1: "detect True (\<lambda>ev. True) (Ref 6) ex_one_fails ex_warm =
     say [Emitted ''detected'' (Ref 0), CalledBack Null (Ref 0)] ex_warm"
    by (simp add: ex_warm_def)
  from t2 miss again have 2: "detect True (\<lambda>ev. True) (Ref 6) ex_all_ok ex_cold =
          say [Stored (Ref 8), Emitted ''detected'' (Ref 8), CalledBack Null (Ref 8)]
            (say (map Invoked tasks) (ex_cold\<lparr>store := ?h', cache := Ref 8\<rparr>))"
    and 3: "log (detect True (\<lambda>ev. True) (Ref 6) ex_one_fails
            (detect True (\<lambda>ev. True) (Ref 6) ex_all_ok ex_cold)) =
       log ex_cold @ map Invoked tasks @
       [Stored (Ref 8), Emitted ''detected'' (Ref 8), CalledBack Null (Ref 8),
        Emitted ''detected'' (Ref 8), CalledBack Null (Ref 8)]"
    and 4: "count_list
        (drop (length (log ex_cold)) (log (detect True (\<lambda>ev. True) (Ref 6) ex_one_fails
               (detect True (\<lambda>ev. True) (Ref 6) ex_all_ok ex_cold))))
        (Invoked Xcodes) = 1"
    by blast+
  from 1 2 3 4 show ?thesis by (simp add: say_def ex_cold_def)
qed

section \<open>Properties of the merger\<close>

lemma set_ref_addrs: "set (ref_addrs vs) = {a. Ref a \<in> set vs}"
  by (induction vs rule: ref_addrs.induct) auto

lemma deref_update: "deref (h[a := ob]) b = (if b = a \<and> a < length h then ob else deref h b)"
  by (auto simp: deref_def)

lemma deref_append: "deref (h @ [ob]) b = (if b = length h then ob else deref h b)"
  by (auto simp: deref_def nth_append)

lemma own_prop_update:
  "own_prop (Obj (AList.update k v ps)) k' = (if k' = k then v else own_prop (Obj ps) k')"
  by (simp add: update_conv')


lemma store_prop_Inr:
  "store_prop h a k v = Inr h' \<longleftrightarrow> (\<exists>ps. deref h a = Obj ps \<and> h' = h[a := Obj (AList.update k v ps)])"
  by (auto simp: store_prop_def split: hobj.splits)

lemma forEachE_idle: "(\<And>k. k \<in> set ks \<Longrightarrow> f k s = Inr s) \<Longrightarrow> forEachE ks f s = Inr s"
  by (induction ks) auto

lemma update_deref_same: "deref h b = ob \<Longrightarrow> h[b := ob] = h"
  by (cases "b < length h") (auto simp: deref_def list_update_beyond)

lemma plain_Obj: "plain h a \<longleftrightarrow> (\<exists>ps. deref h a = Obj ps)"
  by (auto simp: plain_def split: hobj.splits)

lemma isArray_iff: "isArray h v \<longleftrightarrow> (\<exists>a xs. v = Ref a \<and> deref h a = Arr xs)"
  by (auto simp: isArray_def split: val.splits hobj.splits)

lemma is_object_iff: "(v \<noteq> Null \<and> typeof v = ''object'') \<longleftrightarrow> (\<exists>a. v = Ref a)"
  by (cases v) auto

text \<open>The inner loop writes into a plain target that is neither source nor destination.\<close>

lemma inner_plain:
  assumes "own_prop (deref h src) name = Ref s" and "deref h s = Obj sps"
    and "own_prop (deref h dest) name = Ref b" and "deref h b = Obj bps"
    and "b < length h" and "b \<noteq> src" and "b \<noteq> dest" and "b \<noteq> s"
  shows "forEachE ks (mix_inner strict src dest name) h =
         Inr (h[b := Obj (fold (\<lambda>k. AList.update k (own_prop (Obj sps) k)) ks bps)])"
  using assms
proof (induction ks arbitrary: h bps)
  case Nil
  then show ?case by (simp add: update_deref_same)
next
  case (Cons k ks)
  let ?h1 = "h[b := Obj (AList.update k (own_prop (Obj sps) k) bps)]"
  have step: "mix_inner strict src dest name k h = Inr ?h1"
    using Cons.prems by (simp add: mix_inner_def store_prop_def)
  have "forEachE ks (mix_inner strict src dest name) ?h1 =
        Inr (?h1[b := Obj (fold (\<lambda>k. AList.update k (own_prop (Obj sps) k)) ks
                (AList.update k (own_prop (Obj sps) k) bps))])"
    using Cons.prems by (intro Cons.IH) (simp_all add: deref_update)
  with step show ?case by simp
qed

text \<open>With any other truthy target a successful inner loop leaves the store as it is.\<close>

lemma assign_other:
  assumes "assign strict h t k v = Inr h'" and "\<And>b. t = Ref b \<Longrightarrow> \<not> plain h b"
  shows "h' = h"
  using assms by (cases t) (auto simp: store_prop_def plain_def split: hobj.splits if_splits)

lemma inner_other:
  assumes "forEachE ks (mix_inner strict src dest name) h = Inr h'"
    and "\<And>b. own_prop (deref h dest) name = Ref b \<Longrightarrow> \<not> plain h b"
  shows "h' = h"
  using assms
proof (induction ks)
  case Nil
  then show ?case by simp
next
  case (Cons k ks)
  from Cons.prems(1) obtain h1 where
    s: "mix_inner strict src dest name k h = Inr h1"
    and r: "forEachE ks (mix_inner strict src dest name) h1 = Inr h'"
    by (auto split: sum.splits)
  from s Cons.prems(2) have "h1 = h"
    by (auto simp: mix_inner_def split: sum.splits dest: assign_other)
  with r Cons show ?case by simp
qed

lemma separatedD:
  assumes "separated h src dest"
  shows "src < length h" "dest < length h" "src \<noteq> dest"
    "\<exists>sps. deref h src = Obj sps \<and> distinct (map fst sps)"
    "\<exists>dps. deref h dest = Obj dps \<and> distinct (map fst dps)"
  using assms by (auto simp: separated_def plain_Obj)

lemma mem_refs_Obj: "(a \<in> set (refs_of (Obj ps))) = (\<exists>k. (k, Ref a) \<in> set ps)"
  by (force simp: set_ref_addrs)

lemma own_prop_Ref_mem:
  "own_prop (Obj ps) k = Ref a \<Longrightarrow> (k, Ref a) \<in> set ps"
  by (auto split: option.splits dest: map_of_SomeD)

lemma own_prop_refs:
  "deref h x = Obj ps \<Longrightarrow> own_prop (deref h x) k = Ref a \<Longrightarrow> a \<in> set (refs_of (deref h x))"
  using own_prop_Ref_mem [of ps k a] by (force simp: set_ref_addrs)

lemma inner_fails:
  assumes "forEachE ks (mix_inner strict src dest name) h = Inr h'"
    and "own_prop (deref h src) name = Ref s"
    and "own_prop (deref h dest) name = d" and "truthy d"
    and "\<And>b. d = Ref b \<Longrightarrow> \<not> plain h b"
  shows "ks = [] \<or> inert strict d"
proof (cases ks)
  case Nil
  then show ?thesis by simp
next
  case (Cons k ks')
  with assms(1) obtain h1 where "mix_inner strict src dest name k h = Inr h1"
    by (auto split: sum.splits)
  with assms(2-5) show ?thesis
    by (cases d) (auto simp: mix_inner_def store_prop_def plain_def split: hobj.splits if_splits)
qed

lemma mix_key_cases:
  assumes sep: "separated h src dest" and run: "mix_key strict src dest k h = Inr h'"
    and dps: "deref h dest = Obj dps"
  obtains
    (concat) a xs c ys where "own_prop (deref h src) k = Ref a" "deref h a = Arr xs"
      "own_prop (deref h dest) k = Ref c" "deref h c = Arr ys"
      "h' = (h @ [Arr (ys @ xs)])[dest := Obj (AList.update k (Ref (length h)) dps)]"
  | (replace) a xs where "own_prop (deref h src) k = Ref a" "deref h a = Arr xs"
      "\<not> isArray h (own_prop (deref h dest) k)"
      "h' = h[dest := Obj (AList.update k (Ref a) dps)]"
  | (into) s sps b bps where "own_prop (deref h src) k = Ref s" "deref h s = Obj sps"
      "own_prop (deref h dest) k = Ref b" "deref h b = Obj bps"
      "h' = h[b := Obj (copy_props sps bps)]"
  | (dropped) s sps where "own_prop (deref h src) k = Ref s" "deref h s = Obj sps"
      "truthy (own_prop (deref h dest) k)"
      "\<And>b. own_prop (deref h dest) k = Ref b \<Longrightarrow> \<not> plain h b"
      "sps = [] \<or> inert strict (own_prop (deref h dest) k)" "h' = h"
  | (created) s sps where "own_prop (deref h src) k = Ref s" "deref h s = Obj sps"
      "\<not> truthy (own_prop (deref h dest) k)"
      "h' = (h @ [Obj (copy_props sps [])])[dest := Obj (AList.update k (Ref (length h)) dps)]"
  | (scalar) "\<And>a. own_prop (deref h src) k \<noteq> Ref a"
      "h' = h[dest := Obj (AList.update k (own_prop (deref h src) k) dps)]"
proof -
  let ?v = "own_prop (deref h src) k" and ?d = "own_prop (deref h dest) k"
  note sd = separatedD [OF sep]
  show ?thesis
  proof (cases "isArray h ?v")
    case True
    then obtain a xs where v: "?v = Ref a" "deref h a = Arr xs" by (auto simp: isArray_iff)
    show ?thesis
    proof (cases "isArray h ?d")
      case dA: True
      then obtain c ys where d: "?d = Ref c" "deref h c = Arr ys" by (auto simp: isArray_iff)
      from run True dA v d dps sd(2)
      have "h' = (h @ [Arr (ys @ xs)])[dest := Obj (AList.update k (Ref (length h)) dps)]"
        by (simp add: mix_key_def alloc_def store_prop_def elems_def deref_append)
      with v d show ?thesis by (rule concat)
    next
      case False
      with run True v dps have "h' = h[dest := Obj (AList.update k (Ref a) dps)]"
        by (simp add: mix_key_def store_prop_def)
      with v False show ?thesis by (rule replace)
    qed
  next
    case nA: False
    show ?thesis
    proof (cases "\<exists>s. ?v = Ref s")
      case False
      then have no: "\<not> (?v \<noteq> Null \<and> typeof ?v = ''object'')" by (simp add: is_object_iff)
      from run nA no dps have "h' = h[dest := Obj (AList.update k ?v dps)]"
        by (simp add: mix_key_def store_prop_def del: typeof.simps)
      with False show ?thesis by (intro scalar) auto
    next
      case True
      then obtain s where v: "?v = Ref s" by blast
      with nA obtain sps where s: "deref h s = Obj sps"
        by (cases "deref h s") (auto simp: isArray_iff)
      have ob: "?v \<noteq> Null \<and> typeof ?v = ''object''" using v by simp
      show ?thesis
      proof (cases "truthy ?d")
        case tr: True
        from run nA ob tr v s
        have loop: "forEachE (map fst sps) (mix_inner strict src dest k) h = Inr h'"
          by (simp add: mix_key_def del: typeof.simps)
        show ?thesis
        proof (cases "\<exists>b. ?d = Ref b \<and> plain h b")
          case True
          then obtain b bps where b: "?d = Ref b" "deref h b = Obj bps"
            by (auto simp: plain_Obj)
          from b(1) dps have mem: "b \<in> set (refs_of (deref h dest))"
            by (rule own_prop_refs [rotated])
          from v sd(4) have "s \<in> set (refs_of (deref h src))"
            by (auto intro: own_prop_refs)
          with sep mem b(2) have "b < length h" "b \<noteq> src" "b \<noteq> dest" "b \<noteq> s"
            by (auto simp: separated_def plain_Obj)
          from inner_plain [OF v s b this, of "map fst sps" strict] loop
          have "h' = h[b := Obj (copy_props sps bps)]" by (simp add: copy_props_def)
          with v s b show ?thesis by (rule into)
        next
          case False
          then have np: "\<And>b. ?d = Ref b \<Longrightarrow> \<not> plain h b" by blast
          from inner_other [OF loop np] have same: "h' = h" .
          from inner_fails [OF loop v refl tr np] have "sps = [] \<or> inert strict ?d" by simp
          with v s tr np show ?thesis using same by (rule dropped)
        qed
      next
        case fl: False
        let ?n = "length h"
        let ?h2 = "(h @ [Obj []])[dest := Obj (AList.update k (Ref ?n) dps)]"
        from v sd(4) have smem: "s \<in> set (refs_of (deref h src))"
          by (auto intro: own_prop_refs)
        with sep have sl: "s < ?n" "s \<noteq> dest" by (auto simp: separated_def)
        have d2: "deref ?h2 src = deref h src" "deref ?h2 s = deref h s"
          "deref ?h2 dest = Obj (AList.update k (Ref ?n) dps)" "deref ?h2 ?n = Obj []"
          using sd(1-3) sl by (auto simp: deref_update deref_append)
        from run nA ob fl dps sd(2) v s d2
        have loop: "forEachE (map fst sps) (mix_inner strict src dest k) ?h2 = Inr h'"
          by (simp add: mix_key_def alloc_def store_prop_def deref_append del: typeof.simps)
        have "forEachE (map fst sps) (mix_inner strict src dest k) ?h2 =
              Inr (?h2[?n := Obj (fold (\<lambda>k. AList.update k (own_prop (Obj sps) k)) (map fst sps) [])])"
          using v s sd(1-3) sl d2
          by (intro inner_plain [where s = s]) (simp_all add: update_conv')
        with loop have "h' = ?h2[?n := Obj (copy_props sps [])]" by (simp add: copy_props_def)
        also have "\<dots> = (h @ [Obj (copy_props sps [])])[dest := Obj (AList.update k (Ref ?n) dps)]"
          using sd(2) by (simp add: list_update_swap list_update_append)
        finally show ?thesis using v s fl by (intro created) auto
      qed
    qed
  qed
qed

lemma ref_addrs_Cons: "ref_addrs (v # vs) = ref_addrs [v] @ ref_addrs vs"
  by (cases v) auto

lemma ref_addrs_single: "set (ref_addrs [v]) = {a. v = Ref a}" "distinct (ref_addrs [v])"
  by (cases v; auto)+

lemma refs_update_set:
  "set (ref_addrs (map snd (AList.update k v ps))) \<subseteq>
     set (ref_addrs (map snd ps)) \<union> {a. v = Ref a}"
  by (induction ps) (auto simp: set_ref_addrs)

lemma refs_update_distinct:
  assumes "distinct (filter P (ref_addrs (map snd ps)))"
    and "\<And>c. v = Ref c \<Longrightarrow> P c \<Longrightarrow> c \<notin> set (ref_addrs (map snd ps))"
  shows "distinct (filter P (ref_addrs (map snd (AList.update k v ps))))"
  using assms
proof (induction ps)
  case Nil
  show ?case by (cases v) auto
next
  case (Cons p ps)
  obtain k' v' where p: "p = (k', v')" by (cases p) auto
  from Cons.prems(1) p have tl: "distinct (filter P (ref_addrs (map snd ps)))"
    by (simp add: ref_addrs_Cons [of v' "map snd ps"])
  show ?case
  proof (cases "k' = k")
    case True
    have "ref_addrs (map snd (AList.update k v (p # ps))) = ref_addrs [v] @ ref_addrs (map snd ps)"
      using True p by (simp add: ref_addrs_Cons [of v "map snd ps"])
    moreover have "\<And>c. v = Ref c \<Longrightarrow> P c \<Longrightarrow> c \<notin> set (ref_addrs (map snd ps))"
      using Cons.prems(2) p by (auto simp: set_ref_addrs)
    ultimately show ?thesis using tl by (cases v) auto
  next
    case False
    have eq: "ref_addrs (map snd (AList.update k v (p # ps))) =
          ref_addrs [v'] @ ref_addrs (map snd (AList.update k v ps))"
      using False p by (simp add: ref_addrs_Cons [of v' "map snd (AList.update k v ps)"])
    have ih: "distinct (filter P (ref_addrs (map snd (AList.update k v ps))))"
      using tl Cons.prems(2) p by (intro Cons.IH) (auto simp: set_ref_addrs)
    have "\<And>c. v' = Ref c \<Longrightarrow> P c \<Longrightarrow> c \<notin> set (ref_addrs (map snd (AList.update k v ps)))"
    proof
      fix c assume c: "v' = Ref c" "P c" "c \<in> set (ref_addrs (map snd (AList.update k v ps)))"
      from c(3) refs_update_set [of k v ps]
      have "c \<in> set (ref_addrs (map snd ps)) \<or> v = Ref c" by auto
      then show False
      proof
        assume "c \<in> set (ref_addrs (map snd ps))"
        with Cons.prems(1) p c(1,2) show False by simp
      next
        assume "v = Ref c"
        from Cons.prems(2) [OF this c(2)] p c(1) show False by simp
      qed
    qed
    with ih eq show ?thesis by (cases v') auto
  qed
qed

text \<open>Separation only looks at the two objects, the length and which addresses are plain.\<close>

lemma separated_frame:
  assumes "separated h src dest" and "length h \<le> length h'"
    and "deref h' src = deref h src" and "deref h' dest = deref h dest"
    and "\<And>a. a < length h \<Longrightarrow> plain h' a = plain h a"
  shows "separated h' src dest"
proof -
  from assms(1) have b: "\<forall>b\<in>set (refs_of (deref h dest)). b < length h"
    by (auto simp: separated_def)
  then have "filter (plain h') (refs_of (deref h dest)) = filter (plain h) (refs_of (deref h dest))"
    by (intro filter_cong) (auto simp: assms(5))
  with assms b show ?thesis
    unfolding separated_def by (auto simp: assms(5))
qed

lemma separated_write:
  assumes sep: "separated h src dest" and dps: "deref h dest = Obj dps"
    and len: "length h \<le> length h'" and src: "deref h' src = deref h src"
    and dst: "deref h' dest = Obj (AList.update k v dps)"
    and pl: "\<And>a. a < length h \<Longrightarrow> plain h' a = plain h a"
    and vl: "\<And>c. v = Ref c \<Longrightarrow> c < length h'"
    and vp: "\<And>c. v = Ref c \<Longrightarrow> plain h' c \<Longrightarrow>
              c \<noteq> src \<and> c \<noteq> dest \<and> c \<notin> set (refs_of (deref h src)) \<and>
              c \<notin> set (refs_of (deref h dest))"
  shows "separated h' src dest"
proof -
  note sd = separatedD [OF sep]
  from sep dps have old: "\<forall>b\<in>set (ref_addrs (map snd dps)). b < length h"
    by (auto simp: separated_def)
  then have "filter (plain h') (ref_addrs (map snd dps)) = filter (plain h) (ref_addrs (map snd dps))"
    by (intro filter_cong) (auto simp: pl)
  with sep dps have "distinct (filter (plain h') (ref_addrs (map snd dps)))"
    by (simp add: separated_def)
  then have d: "distinct (filter (plain h') (ref_addrs (map snd (AList.update k v dps))))"
    using vp dps by (intro refs_update_distinct) auto
  have sub: "set (ref_addrs (map snd (AList.update k v dps))) \<subseteq>
       set (ref_addrs (map snd dps)) \<union> {a. v = Ref a}"
    by (rule refs_update_set)
  have keys: "distinct (map fst (AList.update k v dps))"
    using sd(5) dps by (auto intro: distinct_update)
  have each: "\<forall>b\<in>set (ref_addrs (map snd (AList.update k v dps))).
        b < length h' \<and>
        (plain h' b \<longrightarrow> b \<noteq> src \<and> b \<noteq> dest \<and> b \<notin> set (refs_of (deref h src)))"
  proof
    fix b assume "b \<in> set (ref_addrs (map snd (AList.update k v dps)))"
    with sub have "b \<in> set (ref_addrs (map snd dps)) \<or> v = Ref b" by auto
    then show "b < length h' \<and>
        (plain h' b \<longrightarrow> b \<noteq> src \<and> b \<noteq> dest \<and> b \<notin> set (refs_of (deref h src)))"
    proof
      assume m: "b \<in> set (ref_addrs (map snd dps))"
      with old have "b < length h" by auto
      with m sep dps len pl [of b] show ?thesis by (auto simp: separated_def)
    next
      assume "v = Ref b"
      from vl [OF this] vp [OF this] show ?thesis by auto
    qed
  qed
  from sep len have "\<forall>s\<in>set (refs_of (deref h src)). s < length h' \<and> s \<noteq> dest"
    by (auto simp: separated_def)
  with sep len src dst d keys each pl [of src] pl [of dest] show ?thesis
    unfolding separated_def by (simp add: plain_Obj)
qed

lemma has_prop_update:
  "deref h' a = Obj (AList.update k v ps) \<Longrightarrow> has_prop h' a k v"
  by (simp add: has_prop_def update_conv')

lemma own_prop_truthy_map_of:
  "truthy (own_prop (Obj ps) k) \<Longrightarrow> map_of ps k = Some (own_prop (Obj ps) k)"
  by (auto split: option.splits)

lemma own_prop_Ref_map_of:
  "own_prop (Obj ps) k = Ref b \<Longrightarrow> map_of ps k = Some (Ref b)"
  by (auto split: option.splits)

lemma step_concat:
  assumes sep: "separated h src dest" and dps: "deref h dest = Obj dps"
    and concat: "own_prop (deref h src) k = Ref a" "deref h a = Arr xs" "own_prop (deref h dest) k = Ref c" "deref h c = Arr ys" "h' = (h @ [Arr (ys @ xs)])[dest := Obj (AList.update k (Ref (length h)) dps)]"
  shows "separated h' src dest \<and> length h \<le> length h' \<and>
     (\<forall>a<length h. a \<noteq> dest \<and> \<not> (plain h a \<and> own_prop (deref h dest) k = Ref a) \<longrightarrow>
        deref h' a = deref h a) \<and>
     (\<forall>a<length h. plain h' a = plain h a) \<and>
     (\<forall>name. name \<noteq> k \<longrightarrow>
        map_of (props_of (deref h' dest)) name = map_of (props_of (deref h dest)) name) \<and>
     (\<forall>a<length h. plain h a \<and> a \<in> set (refs_of (deref h' dest)) \<longrightarrow>
        a \<in> set (refs_of (deref h dest))) \<and>
     merged strict dest k (own_prop (deref h src) k) (look h (own_prop (deref h src) k))
        (own_prop (deref h dest) k) (look h (own_prop (deref h dest) k)) (length h) h'"
    (is "?S \<and> ?Ln \<and> ?Fr \<and> ?Pl \<and> ?Lo \<and> ?Nr \<and> ?Me")
proof -
  note sd = separatedD [OF sep]
  from sd(4) obtain sps0 where sps0: "deref h src = Obj sps0" by blast
  let ?n = "length h"
  from sep have closed: "\<forall>s\<in>set (refs_of (deref h src)). s < ?n"
    "\<forall>b\<in>set (refs_of (deref h dest)). b < ?n"
    by (auto simp: separated_def)
  have lo: "\<And>v name. name \<noteq> k \<Longrightarrow> map_of (AList.update k v dps) name = map_of dps name"
    by (simp add: update_conv')
    have d: "\<And>x. deref h' x = (if x = dest then Obj (AList.update k (Ref ?n) dps)
          else if x = ?n then Arr (ys @ xs) else deref h x)"
      using sd(2) by (auto simp: concat(5) deref_update deref_append)
    have l: "length h' = Suc ?n" by (simp add: concat(5))
    have pl: "\<And>x. x < ?n \<Longrightarrow> plain h' x = plain h x"
      using dps by (auto simp: plain_def d)
    have ?S
      using sep dps _ _ _ pl
    proof (rule separated_write)
      show "deref h' dest = Obj (AList.update k (Ref ?n) dps)" by (simp add: d)
      show "deref h' src = deref h src" using sd by (simp add: d)
      show "length h \<le> length h'" by (simp add: l)
      show "\<And>c. Ref ?n = Ref c \<Longrightarrow> c < length h'" by (simp add: l)
      have "\<not> plain h' ?n" using sd(2) by (simp add: plain_def d)
      then show "\<And>c. Ref ?n = Ref c \<Longrightarrow> plain h' c \<Longrightarrow>
          c \<noteq> src \<and> c \<noteq> dest \<and> c \<notin> set (refs_of (deref h src)) \<and>
          c \<notin> set (refs_of (deref h dest))" by simp
    qed
    moreover have ?Ln by (simp add: l)
    moreover have ?Fr by (simp add: d)
    moreover have ?Pl by (simp add: pl)
    moreover have ?Lo using dps by (simp add: d lo)
    moreover have ?Nr using refs_update_set [of k "Ref ?n" dps] dps by (auto simp: d)
    moreover have "merged strict dest k (Ref a) (Some (Arr xs)) (Ref c) (Some (Arr ys)) ?n h'"
      using sd(2) by (auto simp: merged_def has_prop_def d update_conv' intro!: exI [of _ ?n])
    then have ?Me using concat(1-4) by (simp add: look_def)
    ultimately show ?thesis by blast
qed

lemma step_replace:
  assumes sep: "separated h src dest" and dps: "deref h dest = Obj dps"
    and replace: "own_prop (deref h src) k = Ref a" "deref h a = Arr xs" "\<not> isArray h (own_prop (deref h dest) k)" "h' = h[dest := Obj (AList.update k (Ref a) dps)]"
  shows "separated h' src dest \<and> length h \<le> length h' \<and>
     (\<forall>a<length h. a \<noteq> dest \<and> \<not> (plain h a \<and> own_prop (deref h dest) k = Ref a) \<longrightarrow>
        deref h' a = deref h a) \<and>
     (\<forall>a<length h. plain h' a = plain h a) \<and>
     (\<forall>name. name \<noteq> k \<longrightarrow>
        map_of (props_of (deref h' dest)) name = map_of (props_of (deref h dest)) name) \<and>
     (\<forall>a<length h. plain h a \<and> a \<in> set (refs_of (deref h' dest)) \<longrightarrow>
        a \<in> set (refs_of (deref h dest))) \<and>
     merged strict dest k (own_prop (deref h src) k) (look h (own_prop (deref h src) k))
        (own_prop (deref h dest) k) (look h (own_prop (deref h dest) k)) (length h) h'"
    (is "?S \<and> ?Ln \<and> ?Fr \<and> ?Pl \<and> ?Lo \<and> ?Nr \<and> ?Me")
proof -
  note sd = separatedD [OF sep]
  from sd(4) obtain sps0 where sps0: "deref h src = Obj sps0" by blast
  let ?n = "length h"
  from sep have closed: "\<forall>s\<in>set (refs_of (deref h src)). s < ?n"
    "\<forall>b\<in>set (refs_of (deref h dest)). b < ?n"
    by (auto simp: separated_def)
  have lo: "\<And>v name. name \<noteq> k \<Longrightarrow> map_of (AList.update k v dps) name = map_of dps name"
    by (simp add: update_conv')
    have d: "\<And>x. deref h' x = (if x = dest then Obj (AList.update k (Ref a) dps) else deref h x)"
      using sd(2) by (auto simp: replace(4) deref_update)
    have l: "length h' = ?n" by (simp add: replace(4))
    have pl: "\<And>x. plain h' x = plain h x"
      using dps by (auto simp: plain_def d)
    have "a \<in> set (refs_of (deref h src))" by (rule own_prop_refs [OF sps0 replace(1)])
    with closed have al: "a < ?n" by auto
    have npa: "\<not> plain h' a" using replace(2) by (simp add: pl) (simp add: plain_def)
    have ?S
      using sep dps _ _ _ pl
    proof (rule separated_write)
      show "deref h' dest = Obj (AList.update k (Ref a) dps)" by (simp add: d)
      show "deref h' src = deref h src" using sd by (simp add: d)
      show "length h \<le> length h'" by (simp add: l)
      show "\<And>c. Ref a = Ref c \<Longrightarrow> c < length h'" using al by (simp add: l)
      show "\<And>c. Ref a = Ref c \<Longrightarrow> plain h' c \<Longrightarrow>
          c \<noteq> src \<and> c \<noteq> dest \<and> c \<notin> set (refs_of (deref h src)) \<and>
          c \<notin> set (refs_of (deref h dest))" using npa by simp
    qed
    moreover have ?Ln by (simp add: l)
    moreover have ?Fr by (simp add: d)
    moreover have ?Pl by (simp add: pl)
    moreover have ?Lo using dps by (simp add: d lo)
    moreover have ?Nr using refs_update_set [of k "Ref a" dps] dps replace(2)
      by (auto simp: d plain_def)
    moreover
    have "merged strict dest k (Ref a) (Some (Arr xs))
            (own_prop (deref h dest) k) (look h (own_prop (deref h dest) k)) ?n h'"
      using replace(3)
      by (auto simp: merged_def has_prop_def d update_conv' isArray_iff look_def
          split: option.splits hobj.splits val.splits)
    then have ?Me using replace(1,2) by (simp add: look_def)
    ultimately show ?thesis by blast
qed

lemma step_into:
  assumes sep: "separated h src dest" and dps: "deref h dest = Obj dps"
    and into: "own_prop (deref h src) k = Ref s" "deref h s = Obj sps" "own_prop (deref h dest) k = Ref b" "deref h b = Obj bps" "h' = h[b := Obj (copy_props sps bps)]"
  shows "separated h' src dest \<and> length h \<le> length h' \<and>
     (\<forall>a<length h. a \<noteq> dest \<and> \<not> (plain h a \<and> own_prop (deref h dest) k = Ref a) \<longrightarrow>
        deref h' a = deref h a) \<and>
     (\<forall>a<length h. plain h' a = plain h a) \<and>
     (\<forall>name. name \<noteq> k \<longrightarrow>
        map_of (props_of (deref h' dest)) name = map_of (props_of (deref h dest)) name) \<and>
     (\<forall>a<length h. plain h a \<and> a \<in> set (refs_of (deref h' dest)) \<longrightarrow>
        a \<in> set (refs_of (deref h dest))) \<and>
     merged strict dest k (own_prop (deref h src) k) (look h (own_prop (deref h src) k))
        (own_prop (deref h dest) k) (look h (own_prop (deref h dest) k)) (length h) h'"
    (is "?S \<and> ?Ln \<and> ?Fr \<and> ?Pl \<and> ?Lo \<and> ?Nr \<and> ?Me")
proof -
  note sd = separatedD [OF sep]
  from sd(4) obtain sps0 where sps0: "deref h src = Obj sps0" by blast
  let ?n = "length h"
  from sep have closed: "\<forall>s\<in>set (refs_of (deref h src)). s < ?n"
    "\<forall>b\<in>set (refs_of (deref h dest)). b < ?n"
    by (auto simp: separated_def)
  have lo: "\<And>v name. name \<noteq> k \<Longrightarrow> map_of (AList.update k v dps) name = map_of dps name"
    by (simp add: update_conv')
    have bm: "b \<in> set (refs_of (deref h dest))" by (rule own_prop_refs [OF dps into(3)])
    with sep into(4) have b: "b < ?n" "b \<noteq> src" "b \<noteq> dest"
      by (auto simp: separated_def plain_Obj)
    have d: "\<And>x. deref h' x = (if x = b then Obj (copy_props sps bps) else deref h x)"
      using b(1) by (auto simp: into(5) deref_update)
    have l: "length h' = ?n" by (simp add: into(5))
    have pl: "\<And>x. plain h' x = plain h x"
      using into(4) by (auto simp: plain_def d)
    have ?S
      using sep by (rule separated_frame) (use b in \<open>auto simp: l d pl\<close>)
    moreover have ?Ln by (simp add: l)
    moreover have ?Fr using into(3,4) by (simp add: d plain_Obj)
    moreover have ?Pl by (simp add: pl)
    moreover have ?Lo using b(3) by (simp add: d)
    moreover have ?Nr using b(3) by (simp add: d)
    moreover
    have mb: "map_of dps k = Some (Ref b)"
      using own_prop_Ref_map_of [of dps k b] into(3) dps by simp
    have "merged strict dest k (Ref s) (Some (Obj sps)) (Ref b) (Some (Obj bps)) ?n h'"
      using mb dps b by (auto simp: merged_def has_prop_def d)
    then have ?Me using into(1-4) by (simp add: look_def)
    ultimately show ?thesis by blast
qed

lemma step_dropped:
  assumes sep: "separated h src dest" and dps: "deref h dest = Obj dps"
    and dropped: "own_prop (deref h src) k = Ref s" "deref h s = Obj sps" "truthy (own_prop (deref h dest) k)" "\<And>b. own_prop (deref h dest) k = Ref b \<Longrightarrow> \<not> plain h b" "sps = [] \<or> inert strict (own_prop (deref h dest) k)" "h' = h"
  shows "separated h' src dest \<and> length h \<le> length h' \<and>
     (\<forall>a<length h. a \<noteq> dest \<and> \<not> (plain h a \<and> own_prop (deref h dest) k = Ref a) \<longrightarrow>
        deref h' a = deref h a) \<and>
     (\<forall>a<length h. plain h' a = plain h a) \<and>
     (\<forall>name. name \<noteq> k \<longrightarrow>
        map_of (props_of (deref h' dest)) name = map_of (props_of (deref h dest)) name) \<and>
     (\<forall>a<length h. plain h a \<and> a \<in> set (refs_of (deref h' dest)) \<longrightarrow>
        a \<in> set (refs_of (deref h dest))) \<and>
     merged strict dest k (own_prop (deref h src) k) (look h (own_prop (deref h src) k))
        (own_prop (deref h dest) k) (look h (own_prop (deref h dest) k)) (length h) h'"
    (is "?S \<and> ?Ln \<and> ?Fr \<and> ?Pl \<and> ?Lo \<and> ?Nr \<and> ?Me")
proof -
  note sd = separatedD [OF sep]
  from sd(4) obtain sps0 where sps0: "deref h src = Obj sps0" by blast
  let ?n = "length h"
  from sep have closed: "\<forall>s\<in>set (refs_of (deref h src)). s < ?n"
    "\<forall>b\<in>set (refs_of (deref h dest)). b < ?n"
    by (auto simp: separated_def)
  have lo: "\<And>v name. name \<noteq> k \<Longrightarrow> map_of (AList.update k v dps) name = map_of dps name"
    by (simp add: update_conv')
    let ?d = "own_prop (deref h dest) k"
    have hp: "has_prop h dest k ?d"
      using dropped(3) dps own_prop_truthy_map_of [of dps k] by (simp add: has_prop_def)
    have no: "\<And>bps. look h ?d \<noteq> Some (Obj bps)"
    proof
      fix bps assume "look h ?d = Some (Obj bps)"
      then obtain b where "?d = Ref b" "deref h b = Obj bps"
        by (cases ?d) (simp_all add: look_def)
      with dropped(4) show False by (simp add: plain_Obj)
    qed
    have "merged strict dest k (Ref s) (Some (Obj sps)) ?d (look h ?d) ?n h"
    proof (cases "look h ?d")
      case None
      with hp dropped(3,5) show ?thesis by (simp add: merged_def)
    next
      case (Some ob)
      with no obtain ys where "ob = Arr ys" by (cases ob) auto
      with Some hp dropped(3,5) show ?thesis by (simp add: merged_def)
    qed
    then have ?Me using dropped(1,2,6) by (simp add: look_def)
    with sep dropped(6) show ?thesis by simp
qed

lemma step_created:
  assumes sep: "separated h src dest" and dps: "deref h dest = Obj dps"
    and created: "own_prop (deref h src) k = Ref s" "deref h s = Obj sps" "\<not> truthy (own_prop (deref h dest) k)" "h' = (h @ [Obj (copy_props sps [])])[dest := Obj (AList.update k (Ref (length h)) dps)]"
  shows "separated h' src dest \<and> length h \<le> length h' \<and>
     (\<forall>a<length h. a \<noteq> dest \<and> \<not> (plain h a \<and> own_prop (deref h dest) k = Ref a) \<longrightarrow>
        deref h' a = deref h a) \<and>
     (\<forall>a<length h. plain h' a = plain h a) \<and>
     (\<forall>name. name \<noteq> k \<longrightarrow>
        map_of (props_of (deref h' dest)) name = map_of (props_of (deref h dest)) name) \<and>
     (\<forall>a<length h. plain h a \<and> a \<in> set (refs_of (deref h' dest)) \<longrightarrow>
        a \<in> set (refs_of (deref h dest))) \<and>
     merged strict dest k (own_prop (deref h src) k) (look h (own_prop (deref h src) k))
        (own_prop (deref h dest) k) (look h (own_prop (deref h dest) k)) (length h) h'"
    (is "?S \<and> ?Ln \<and> ?Fr \<and> ?Pl \<and> ?Lo \<and> ?Nr \<and> ?Me")
proof -
  note sd = separatedD [OF sep]
  from sd(4) obtain sps0 where sps0: "deref h src = Obj sps0" by blast
  let ?n = "length h"
  from sep have closed: "\<forall>s\<in>set (refs_of (deref h src)). s < ?n"
    "\<forall>b\<in>set (refs_of (deref h dest)). b < ?n"
    by (auto simp: separated_def)
  have lo: "\<And>v name. name \<noteq> k \<Longrightarrow> map_of (AList.update k v dps) name = map_of dps name"
    by (simp add: update_conv')
    have d: "\<And>x. deref h' x = (if x = dest then Obj (AList.update k (Ref ?n) dps)
          else if x = ?n then Obj (copy_props sps []) else deref h x)"
      using sd(2) by (auto simp: created(4) deref_update deref_append)
    have l: "length h' = Suc ?n" by (simp add: created(4))
    have pl: "\<And>x. x < ?n \<Longrightarrow> plain h' x = plain h x"
      using dps by (auto simp: plain_def d)
    have ?S
      using sep dps _ _ _ pl
    proof (rule separated_write)
      show "deref h' dest = Obj (AList.update k (Ref ?n) dps)" by (simp add: d)
      show "deref h' src = deref h src" using sd by (simp add: d)
      show "length h \<le> length h'" by (simp add: l)
      show "\<And>c. Ref ?n = Ref c \<Longrightarrow> c < length h'" by (simp add: l)
      have "?n \<notin> set (refs_of (deref h src))" "?n \<notin> set (refs_of (deref h dest))"
        using closed by blast+
      then show "\<And>c. Ref ?n = Ref c \<Longrightarrow> plain h' c \<Longrightarrow>
          c \<noteq> src \<and> c \<noteq> dest \<and> c \<notin> set (refs_of (deref h src)) \<and>
          c \<notin> set (refs_of (deref h dest))" using sd(1,2) by auto
    qed
    moreover have ?Ln by (simp add: l)
    moreover have ?Fr by (simp add: d)
    moreover have ?Pl by (simp add: pl)
    moreover have ?Lo using dps by (simp add: d lo)
    moreover have ?Nr using refs_update_set [of k "Ref ?n" dps] dps by (auto simp: d)
    moreover
    have "merged strict dest k (Ref s) (Some (Obj sps))
            (own_prop (deref h dest) k) (look h (own_prop (deref h dest) k)) ?n h'"
      using created(3) sd(2)
      by (auto simp: merged_def has_prop_def d update_conv' intro!: exI [of _ ?n])
    then have ?Me using created(1,2) by (simp add: look_def)
    ultimately show ?thesis by blast
qed

lemma step_scalar:
  assumes sep: "separated h src dest" and dps: "deref h dest = Obj dps"
    and scalar: "\<And>a. own_prop (deref h src) k \<noteq> Ref a" "h' = h[dest := Obj (AList.update k (own_prop (deref h src) k) dps)]"
  shows "separated h' src dest \<and> length h \<le> length h' \<and>
     (\<forall>a<length h. a \<noteq> dest \<and> \<not> (plain h a \<and> own_prop (deref h dest) k = Ref a) \<longrightarrow>
        deref h' a = deref h a) \<and>
     (\<forall>a<length h. plain h' a = plain h a) \<and>
     (\<forall>name. name \<noteq> k \<longrightarrow>
        map_of (props_of (deref h' dest)) name = map_of (props_of (deref h dest)) name) \<and>
     (\<forall>a<length h. plain h a \<and> a \<in> set (refs_of (deref h' dest)) \<longrightarrow>
        a \<in> set (refs_of (deref h dest))) \<and>
     merged strict dest k (own_prop (deref h src) k) (look h (own_prop (deref h src) k))
        (own_prop (deref h dest) k) (look h (own_prop (deref h dest) k)) (length h) h'"
    (is "?S \<and> ?Ln \<and> ?Fr \<and> ?Pl \<and> ?Lo \<and> ?Nr \<and> ?Me")
proof -
  note sd = separatedD [OF sep]
  from sd(4) obtain sps0 where sps0: "deref h src = Obj sps0" by blast
  let ?n = "length h"
  from sep have closed: "\<forall>s\<in>set (refs_of (deref h src)). s < ?n"
    "\<forall>b\<in>set (refs_of (deref h dest)). b < ?n"
    by (auto simp: separated_def)
  have lo: "\<And>v name. name \<noteq> k \<Longrightarrow> map_of (AList.update k v dps) name = map_of dps name"
    by (simp add: update_conv')
    let ?v = "own_prop (deref h src) k"
    have d: "\<And>x. deref h' x = (if x = dest then Obj (AList.update k ?v dps) else deref h x)"
      using sd(2) by (auto simp: scalar(2) deref_update)
    have l: "length h' = ?n" by (simp add: scalar(2))
    have pl: "\<And>x. plain h' x = plain h x"
      using dps by (auto simp: plain_def d)
    have ?S
      using sep dps _ _ _ pl
    proof (rule separated_write)
      show "deref h' dest = Obj (AList.update k ?v dps)" by (simp add: d)
      show "deref h' src = deref h src" using sd by (simp add: d)
      show "length h \<le> length h'" by (simp add: l)
      show "\<And>c. ?v = Ref c \<Longrightarrow> c < length h'" using scalar(1) by simp
      show "\<And>c. ?v = Ref c \<Longrightarrow> plain h' c \<Longrightarrow>
          c \<noteq> src \<and> c \<noteq> dest \<and> c \<notin> set (refs_of (deref h src)) \<and>
          c \<notin> set (refs_of (deref h dest))" using scalar(1) by simp
    qed
    moreover have ?Ln by (simp add: l)
    moreover have ?Fr by (simp add: d)
    moreover have ?Pl by (simp add: pl)
    moreover have ?Lo using dps by (simp add: d lo)
    moreover have ?Nr using refs_update_set [of k ?v dps] dps scalar(1) by (auto simp: d)
    moreover
    have "look h ?v = None" using scalar(1) by (cases ?v) (auto simp: look_def)
    then have ?Me
      by (simp add: merged_def has_prop_def d update_conv')
    ultimately show ?thesis by blast
qed

lemma mix_key_step:
  assumes sep: "separated h src dest" and run: "mix_key strict src dest k h = Inr h'"
  shows "separated h' src dest \<and> length h \<le> length h' \<and>
     (\<forall>a<length h. a \<noteq> dest \<and> \<not> (plain h a \<and> own_prop (deref h dest) k = Ref a) \<longrightarrow>
        deref h' a = deref h a) \<and>
     (\<forall>a<length h. plain h' a = plain h a) \<and>
     (\<forall>name. name \<noteq> k \<longrightarrow>
        map_of (props_of (deref h' dest)) name = map_of (props_of (deref h dest)) name) \<and>
     (\<forall>a<length h. plain h a \<and> a \<in> set (refs_of (deref h' dest)) \<longrightarrow>
        a \<in> set (refs_of (deref h dest))) \<and>
     merged strict dest k (own_prop (deref h src) k) (look h (own_prop (deref h src) k))
        (own_prop (deref h dest) k) (look h (own_prop (deref h dest) k)) (length h) h'"
proof -
  from separatedD(5) [OF sep] obtain dps where dps: "deref h dest = Obj dps" by blast
  from sep run dps show ?thesis
  proof (cases rule: mix_key_cases)
    case concat
    then show ?thesis by (rule step_concat [OF sep dps])
  next
    case replace
    then show ?thesis by (rule step_replace [OF sep dps])
  next
    case into
    then show ?thesis by (rule step_into [OF sep dps])
  next
    case dropped
    then show ?thesis by (rule step_dropped [OF sep dps])
  next
    case created
    then show ?thesis by (rule step_created [OF sep dps])
  next
    case scalar
    then show ?thesis by (rule step_scalar [OF sep dps])
  qed
qed

lemma shared_target:
  assumes "distinct (filter P (ref_addrs (map snd ps)))"
    and "map_of ps k = Some (Ref b)" and "map_of ps k' = Some (Ref b)" and "P b"
  shows "k = k'"
  using assms
proof (induction ps)
  case Nil
  then show ?case by simp
next
  case (Cons p ps)
  obtain k0 v0 where p: "p = (k0, v0)" by (cases p) auto
  have refs: "ref_addrs (map snd (p # ps)) = ref_addrs [v0] @ ref_addrs (map snd ps)"
    using p by (simp add: ref_addrs_Cons [of v0 "map snd ps"])
  have inl: "\<And>x. map_of ps x = Some (Ref b) \<Longrightarrow> b \<in> set (ref_addrs (map snd ps))"
    by (force simp: set_ref_addrs dest: map_of_SomeD)
  show ?case
  proof (cases "k = k0")
    case True
    show ?thesis
    proof (cases "k' = k0")
      case True
      with \<open>k = k0\<close> show ?thesis by simp
    next
      case False
      with Cons.prems(3) p have "b \<in> set (ref_addrs (map snd ps))" by (auto intro: inl)
      moreover from True Cons.prems(2) p have "v0 = Ref b" by simp
      ultimately show ?thesis using Cons.prems(1,4) refs by simp
    qed
  next
    case False
    show ?thesis
    proof (cases "k' = k0")
      case True
      from False Cons.prems(2) p have "b \<in> set (ref_addrs (map snd ps))" by (auto intro: inl)
      moreover from True Cons.prems(3) p have "v0 = Ref b" by simp
      ultimately show ?thesis using Cons.prems(1,4) refs by simp
    next
      case k': False
      from Cons.prems(1) refs have "distinct (filter P (ref_addrs (map snd ps)))" by simp
      with False k' Cons.prems p show ?thesis by (intro Cons.IH) auto
    qed
  qed
qed

lemma separated_target:
  assumes sep: "separated h src dest"
    and "own_prop (deref h dest) k = Ref b" and "own_prop (deref h dest) k' = Ref b"
    and "plain h b"
  shows "k = k'"
proof -
  from separatedD(5) [OF sep] obtain dps where dps: "deref h dest = Obj dps" by blast
  from sep dps have "distinct (filter (plain h) (ref_addrs (map snd dps)))"
    by (simp add: separated_def)
  moreover have "map_of dps k = Some (Ref b)"
    using assms(2) unfolding dps by (rule own_prop_Ref_map_of)
  moreover have "map_of dps k' = Some (Ref b)"
    using assms(3) unfolding dps by (rule own_prop_Ref_map_of)
  ultimately show ?thesis using assms(4) by (rule shared_target)
qed

lemma has_prop_own: "has_prop h a k v \<Longrightarrow> own_prop (deref h a) k = v"
  by (auto simp: has_prop_def split: hobj.splits)

lemma step_keeps_sources:
  assumes sep: "separated h src dest" and run: "mix_key strict src dest k h = Inr h'"
  shows "deref h' src = deref h src"
    and "\<And>s. s \<in> set (refs_of (deref h src)) \<Longrightarrow> deref h' s = deref h s"
proof -
  note st = mix_key_step [OF sep run]
  note sd = separatedD [OF sep]
  from sd(5) obtain dps where dps: "deref h dest = Obj dps" by blast
  have "\<not> (plain h src \<and> own_prop (deref h dest) k = Ref src)"
  proof
    assume a: "plain h src \<and> own_prop (deref h dest) k = Ref src"
    then have "src \<in> set (refs_of (deref h dest))" using own_prop_refs [OF dps] by blast
    with sep a show False by (auto simp: separated_def)
  qed
  with st sd show "deref h' src = deref h src" by blast
  fix s assume s: "s \<in> set (refs_of (deref h src))"
  with sep have s2: "s < length h" "s \<noteq> dest" by (auto simp: separated_def)
  have "\<not> (plain h s \<and> own_prop (deref h dest) k = Ref s)"
  proof
    assume a: "plain h s \<and> own_prop (deref h dest) k = Ref s"
    then have "s \<in> set (refs_of (deref h dest))" using own_prop_refs [OF dps] by blast
    with sep a s show False by (auto simp: separated_def)
  qed
  with st s2 show "deref h' s = deref h s" by blast
qed

lemma step_keeps_others:
  assumes sep: "separated h src dest" and run: "mix_key strict src dest k h = Inr h'"
    and neq: "name \<noteq> k"
  shows "own_prop (deref h' dest) name = own_prop (deref h dest) name"
    and "\<And>x. has_prop h dest name x \<Longrightarrow> has_prop h' dest name x"
    and "\<And>c. own_prop (deref h dest) name = Ref c \<Longrightarrow> deref h' c = deref h c"
proof -
  note st = mix_key_step [OF sep run]
  note sd = separatedD [OF sep]
  from sd(5) obtain dps where dps: "deref h dest = Obj dps" by blast
  from st have sep': "separated h' src dest" by blast
  from separatedD(5) [OF sep'] obtain dps' where dps': "deref h' dest = Obj dps'" by blast
  from st neq dps dps' have m: "map_of dps' name = map_of dps name" by simp
  show "own_prop (deref h' dest) name = own_prop (deref h dest) name"
    by (simp add: dps dps' m)
  show "\<And>x. has_prop h dest name x \<Longrightarrow> has_prop h' dest name x"
    by (simp add: has_prop_def dps dps' m)
  fix c assume c: "own_prop (deref h dest) name = Ref c"
  then have mem: "c \<in> set (refs_of (deref h dest))" using own_prop_refs [OF dps] by blast
  with sep have cl: "c < length h" by (auto simp: separated_def)
  have cd: "c \<noteq> dest"
  proof (cases "plain h c")
    case True
    with sep mem show ?thesis by (auto simp: separated_def)
  next
    case False
    with sep show ?thesis by (auto simp: separated_def)
  qed
  have "\<not> (plain h c \<and> own_prop (deref h dest) k = Ref c)"
    using separated_target [OF sep _ c] neq by blast
  with st cl cd show "deref h' c = deref h c" by blast
qed

lemma merged_mono:
  assumes m: "merged strict dest name v sv d dv n' h" and le: "n \<le> n'"
  shows "merged strict dest name v sv d dv n h"
proof -
  have ex: "\<And>Q. (\<exists>c. n' \<le> c \<and> Q c) \<Longrightarrow> (\<exists>c. n \<le> c \<and> Q c)"
    using le order_trans by blast
  show ?thesis
  proof (cases sv)
    case None
    with m show ?thesis by (simp add: merged_def)
  next
    case (Some so)
    show ?thesis
    proof (cases so)
      case (Arr xs)
      with Some m ex show ?thesis
        by (cases dv) (auto simp: merged_def split: hobj.splits)
    next
      case (Obj sps)
      with Some m ex show ?thesis
        by (cases "truthy d") (simp_all add: merged_def)
    qed
  qed
qed

lemma merged_stable:
  assumes m: "merged strict dest name v sv d dv n h"
    and hp: "\<And>x. has_prop h dest name x \<Longrightarrow> has_prop h' dest name x"
    and tg: "\<And>c. has_prop h dest name (Ref c) \<Longrightarrow> deref h' c = deref h c"
  shows "merged strict dest name v sv d dv n h'"
proof -
  have ex: "\<And>ob. (\<exists>c. n \<le> c \<and> has_prop h dest name (Ref c) \<and> deref h c = ob) \<Longrightarrow>
            (\<exists>c. n \<le> c \<and> has_prop h' dest name (Ref c) \<and> deref h' c = ob)"
    using hp tg by metis
  have tr: "\<And>ob. has_prop h dest name d \<Longrightarrow> (\<exists>b. d = Ref b \<and> deref h b = ob) \<Longrightarrow>
            (\<exists>b. d = Ref b \<and> deref h' b = ob)"
    using tg by metis
  show ?thesis
  proof (cases sv)
    case None
    with m hp show ?thesis by (simp add: merged_def)
  next
    case (Some so)
    show ?thesis
    proof (cases so)
      case (Arr xs)
      with Some m hp ex show ?thesis
        by (cases dv) (auto simp: merged_def split: hobj.splits)
    next
      case (Obj sps)
      show ?thesis
      proof (cases "truthy d")
        case False
        with Some Obj m ex show ?thesis by (simp add: merged_def)
      next
        case True
        with Some Obj m have 1: "has_prop h dest name d" by (simp add: merged_def)
        from True Some Obj m hp tr [OF 1] show ?thesis
          by (cases dv) (auto simp: merged_def split: hobj.splits)
      qed
    qed
  qed
qed

lemma framed_refl: "framed dest h h"
  by (simp add: framed_def)

lemma framed_trans: "framed dest h h1 \<Longrightarrow> framed dest h1 h2 \<Longrightarrow> framed dest h h2"
  unfolding framed_def
  apply (intro conjI allI impI)
     apply simp
    apply (metis (no_types, lifting) less_le_trans)
   apply (metis (no_types, lifting) less_le_trans)
  apply (metis (no_types, lifting) less_le_trans)
  done

lemma untouched_refl: "untouched dest name h h"
  by (simp add: untouched_def)

lemma untouched_trans:
  "untouched dest name h h1 \<Longrightarrow> untouched dest name h1 h2 \<Longrightarrow> untouched dest name h h2"
  unfolding untouched_def by (intro conjI allI impI) (simp, metis, blast)

lemma step_framed:
  assumes sep: "separated h src dest" and run: "mix_key strict src dest k h = Inr h'"
  shows "framed dest h h'"
proof -
  note st = mix_key_step [OF sep run]
  from separatedD(5) [OF sep] obtain dps where dps: "deref h dest = Obj dps" by blast
  have "\<And>a. own_prop (deref h dest) k = Ref a \<Longrightarrow> a \<in> set (refs_of (deref h dest))"
    by (rule own_prop_refs [OF dps])
  with st show ?thesis unfolding framed_def by blast
qed

lemma step_untouched:
  assumes sep: "separated h src dest" and run: "mix_key strict src dest k h = Inr h'"
    and neq: "name \<noteq> k"
  shows "untouched dest name h h'"
  using step_keeps_others [OF sep run neq] unfolding untouched_def by blast

lemma step_snapshot:
  assumes sep: "separated h src dest" and run: "mix_key strict src dest k h = Inr h'"
    and neq: "name \<noteq> k"
  shows "merged_from strict src dest name h' h2 \<Longrightarrow> merged_from strict src dest name h h2"
proof -
  note ks = step_keeps_sources [OF sep run]
  note ko = step_keeps_others [OF sep run neq]
  note st = mix_key_step [OF sep run]
  from separatedD(4) [OF sep] obtain sps where sps: "deref h src = Obj sps" by blast
  have 1: "own_prop (deref h' src) name = own_prop (deref h src) name" by (simp add: ks(1))
  have 2: "look h' (own_prop (deref h src) name) = look h (own_prop (deref h src) name)"
  proof (cases "own_prop (deref h src) name")
    case (Ref s)
    then have "s \<in> set (refs_of (deref h src))" by (rule own_prop_refs [OF sps])
    with Ref ks(2) show ?thesis by (simp add: look_def)
  qed (simp_all add: look_def)
  have 3: "look h' (own_prop (deref h dest) name) = look h (own_prop (deref h dest) name)"
  proof (cases "own_prop (deref h dest) name")
    case (Ref c)
    with ko(3) show ?thesis by (simp add: look_def)
  qed (simp_all add: look_def)
  assume "merged_from strict src dest name h' h2"
  then have "merged strict dest name
       (own_prop (deref h src) name) (look h (own_prop (deref h src) name))
       (own_prop (deref h dest) name) (look h (own_prop (deref h dest) name))
       (length h') h2"
    by (simp add: merged_from_def 1 2 3 ko(1))
  with st show ?thesis unfolding merged_from_def by (blast intro: merged_mono)
qed

lemma untouched_merged:
  assumes "untouched dest name h h'" and "merged strict dest name v sv d dv n h"
  shows "merged strict dest name v sv d dv n h'"
  using assms(2)
proof (rule merged_stable)
  show "\<And>x. has_prop h dest name x \<Longrightarrow> has_prop h' dest name x"
    using assms(1) by (simp add: untouched_def)
  show "\<And>c. has_prop h dest name (Ref c) \<Longrightarrow> deref h' c = deref h c"
    using assms(1) by (auto simp: untouched_def dest: has_prop_own)
qed

lemma mix_keys:
  assumes "separated h src dest" and "distinct ks"
    and "forEachE ks (mix_key strict src dest) h = Inr h'"
  shows "separated h' src dest \<and> framed dest h h' \<and>
     (\<forall>name. name \<notin> set ks \<longrightarrow> untouched dest name h h') \<and>
     (\<forall>name\<in>set ks. merged_from strict src dest name h h')"
  using assms
proof (induction ks arbitrary: h)
  case Nil
  then show ?case by (simp add: framed_refl untouched_refl)
next
  case (Cons k ks)
  from Cons.prems(3) obtain h1 where
    run: "mix_key strict src dest k h = Inr h1"
    and rest: "forEachE ks (mix_key strict src dest) h1 = Inr h'"
    by (auto split: sum.splits)
  note sep = Cons.prems(1)
  note st = mix_key_step [OF sep run]
  from st have sep1: "separated h1 src dest" by blast
  from Cons.prems(2) have dist: "distinct ks" "k \<notin> set ks" by auto
  note ih = Cons.IH [OF sep1 dist(1) rest]
  have f: "framed dest h h'"
    using step_framed [OF sep run] ih by (blast intro: framed_trans)
  have u: "\<forall>name. name \<notin> set (k # ks) \<longrightarrow> untouched dest name h h'"
    using step_untouched [OF sep run] ih by (auto intro: untouched_trans)
  have mk: "merged_from strict src dest k h h'"
  proof -
    from st have "merged_from strict src dest k h h1" by (simp add: merged_from_def)
    moreover from ih dist(2) have "untouched dest k h1 h'" by blast
    ultimately show ?thesis unfolding merged_from_def by (blast intro: untouched_merged)
  qed
  have mo: "\<forall>name\<in>set ks. merged_from strict src dest name h h'"
  proof
    fix name assume n: "name \<in> set ks"
    with dist(2) have "name \<noteq> k" by auto
    moreover from ih n have "merged_from strict src dest name h1 h'" by blast
    ultimately show "merged_from strict src dest name h h'"
      using step_snapshot [OF sep run] by blast
  qed
  from ih f u mk mo show ?case by simp
qed





lemma mix_facts:
  assumes sep: "separated h src dest" and run: "mix strict src dest h = Inr h'"
  shows "separated h' src dest" and "framed dest h h'"
    and "\<And>name. name \<in> set (own_keys (deref h src)) \<Longrightarrow> merged_from strict src dest name h h'"
    and "\<And>name. name \<notin> set (own_keys (deref h src)) \<Longrightarrow> untouched dest name h h'"
proof -
  from sep have d: "distinct (own_keys (deref h src))" by (simp add: separated_def)
  from run have r: "forEachE (own_keys (deref h src)) (mix_key strict src dest) h = Inr h'"
    by (simp add: mix_def)
  note all = mix_keys [OF sep d r]
  from all show "separated h' src dest" "framed dest h h'" by blast+
  from all show "\<And>name. name \<in> set (own_keys (deref h src)) \<Longrightarrow>
      merged_from strict src dest name h h'" by blast
  from all show "\<And>name. name \<notin> set (own_keys (deref h src)) \<Longrightarrow> untouched dest name h h'"
    by blast
qed














section \<open>When a merge completes\<close>

text \<open>
  The theorems on the merger are about a merge that completes. A merge of separated
  objects completes when every name of the source is accepted: outside strict mode, when
  no object of the source meets an array or a function in the destination.
\<close>

lemma assign_inert: "inert strict d \<Longrightarrow> assign strict h d k v = Inr h"
  by (cases d) auto

lemma mix_key_completes:
  assumes sep: "separated h src dest" and acc: "accepts strict h src dest k"
  shows "\<exists>h'. mix_key strict src dest k h = Inr h'"
proof -
  let ?v = "own_prop (deref h src) k" and ?d = "own_prop (deref h dest) k"
  note sd = separatedD [OF sep]
  from sd(5) obtain dps where dps: "deref h dest = Obj dps" by blast
  show ?thesis
  proof (cases "isArray h ?v")
    case True
    with dps sd(2) show ?thesis
      by (simp add: mix_key_def Let_def alloc_def store_prop_def deref_append)
  next
    case nA: False
    show ?thesis
    proof (cases "\<exists>s. ?v = Ref s")
      case False
      then have no: "\<not> (?v \<noteq> Null \<and> typeof ?v = ''object'')" by (simp add: is_object_iff)
      from nA False have "mix_key strict src dest k h = store_prop h dest k ?v"
        by (cases ?v) (simp_all add: mix_key_def Let_def isArray_def)
      with dps show ?thesis by (simp add: store_prop_def)
    next
      case True
      then obtain s where v: "?v = Ref s" by blast
      with nA obtain sps where s: "deref h s = Obj sps"
        by (cases "deref h s") (auto simp: isArray_iff)
      have ob: "?v \<noteq> Null \<and> typeof ?v = ''object''" using v by simp
      from v sd(4) have smem: "s \<in> set (refs_of (deref h src))"
        by (auto intro: own_prop_refs)
      show ?thesis
      proof (cases "truthy ?d")
        case tr: True
        have eq: "mix_key strict src dest k h =
                  forEachE (map fst sps) (mix_inner strict src dest k) h"
          using nA ob tr v s by (simp add: mix_key_def Let_def del: typeof.simps)
        show ?thesis
        proof (cases "\<exists>b. ?d = Ref b \<and> plain h b")
          case True
          then obtain b bps where b: "?d = Ref b" "deref h b = Obj bps"
            by (auto simp: plain_Obj)
          from b(1) dps have mem: "b \<in> set (refs_of (deref h dest))"
            by (rule own_prop_refs [rotated])
          with sep smem b(2) have "b < length h" "b \<noteq> src" "b \<noteq> dest" "b \<noteq> s"
            by (auto simp: separated_def plain_Obj)
          from inner_plain [OF v s b this, of "map fst sps" strict] eq
          show ?thesis by simp
        next
          case False
          with acc v s tr have c: "sps = [] \<or> inert strict ?d"
            by (auto simp: accepts_def look_def Let_def plain_Obj split: val.splits hobj.splits)
          show ?thesis
          proof (cases "sps = []")
            case True
            with eq show ?thesis by simp
          next
            case False
            with c have i: "inert strict ?d" by simp
            have "forEachE (map fst sps) (mix_inner strict src dest k) h = Inr h"
              by (rule forEachE_idle) (simp add: mix_inner_def v assign_inert [OF i])
            with eq show ?thesis by simp
          qed
        qed
      next
        case fl: False
        let ?n = "length h"
        let ?h2 = "(h @ [Obj []])[dest := Obj (AList.update k (Ref ?n) dps)]"
        from smem sep have sl: "s < ?n" "s \<noteq> dest" by (auto simp: separated_def)
        have d2: "deref ?h2 src = deref h src" "deref ?h2 s = deref h s"
          "deref ?h2 dest = Obj (AList.update k (Ref ?n) dps)" "deref ?h2 ?n = Obj []"
          using sd(1-3) sl by (auto simp: deref_update deref_append)
        from nA ob fl dps sd(2) v s d2
        have eq: "mix_key strict src dest k h =
                  forEachE (map fst sps) (mix_inner strict src dest k) ?h2"
          by (simp add: mix_key_def Let_def alloc_def store_prop_def deref_append del: typeof.simps)
        have "forEachE (map fst sps) (mix_inner strict src dest k) ?h2 =
              Inr (?h2[?n := Obj (fold (\<lambda>k. AList.update k (own_prop (Obj sps) k)) (map fst sps) [])])"
          using v s sd(1-3) sl d2
          by (intro inner_plain [where s = s]) (simp_all add: update_conv')
        with eq show ?thesis by simp
      qed
    qed
  qed
qed

lemma accepts_step:
  assumes sep: "separated h src dest" and run: "mix_key strict src dest k h = Inr h1"
    and neq: "name \<noteq> k"
  shows "accepts strict h1 src dest name = accepts strict h src dest name"
proof -
  note sd = separatedD [OF sep]
  note ks = step_keeps_sources [OF sep run]
  note ko = step_keeps_others [OF sep run neq]
  from sd(4) obtain sps where sps: "deref h src = Obj sps" by blast
  have a: "own_prop (deref h1 src) name = own_prop (deref h src) name" by (simp add: ks(1))
  have b: "look h1 (own_prop (deref h src) name) = look h (own_prop (deref h src) name)"
  proof (cases "own_prop (deref h src) name")
    case (Ref s)
    from own_prop_refs [OF sps Ref] have "deref h1 s = deref h s" by (rule ks(2))
    with Ref show ?thesis by (simp add: look_def)
  qed (simp_all add: look_def)
  have c: "look h1 (own_prop (deref h dest) name) = look h (own_prop (deref h dest) name)"
  proof (cases "own_prop (deref h dest) name")
    case (Ref c)
    from ko(3) [OF Ref] Ref show ?thesis by (simp add: look_def)
  qed (simp_all add: look_def)
  show ?thesis by (simp only: accepts_def Let_def a b ko(1) c)
qed

lemma mix_keys_complete:
  assumes "separated h src dest" and "distinct ks"
    and "\<forall>name\<in>set ks. accepts strict h src dest name"
  shows "\<exists>h'. forEachE ks (mix_key strict src dest) h = Inr h'"
  using assms
proof (induction ks arbitrary: h)
  case Nil
  then show ?case by simp
next
  case (Cons k ks)
  from Cons.prems(3) have "accepts strict h src dest k" by simp
  from mix_key_completes [OF Cons.prems(1) this] obtain h1 where
    run: "mix_key strict src dest k h = Inr h1" by blast
  from mix_key_step [OF Cons.prems(1) run] have sep1: "separated h1 src dest" by blast
  from Cons.prems(2) have dist: "distinct ks" "k \<notin> set ks" by auto
  have "\<forall>name\<in>set ks. accepts strict h1 src dest name"
  proof
    fix name assume n: "name \<in> set ks"
    with dist(2) have "name \<noteq> k" by blast
    from accepts_step [OF Cons.prems(1) run this] Cons.prems(3) n
    show "accepts strict h1 src dest name" by simp
  qed
  from Cons.IH [OF sep1 dist(1) this] run show ?case by simp
qed

lemma mix_completes:
  assumes "separated h src dest"
    and "\<forall>name\<in>set (own_keys (deref h src)). accepts strict h src dest name"
  shows "\<exists>h'. mix strict src dest h = Inr h'"
proof -
  from assms(1) have "distinct (own_keys (deref h src))" by (simp add: separated_def)
  from mix_keys_complete [OF assms(1) this assms(2)] show ?thesis by (simp add: mix_def)
qed

section \<open>The merges of a detection\<close>

text \<open>
  The theorems on the merger assume that source and destination are separated. This is
  so for every merge that \<^verbatim>\<open>detect\<close> performs: the report is created after the
  detectors' results, which therefore do not refer to it, and the plain objects the
  report holds directly are those the merger has created for it.
\<close>

lemma report_separated:
  assumes "closed n h" and "report n h results" and "src < n" and "plain h src"
  shows "separated h src results"
  using assms unfolding closed_def report_def separated_def
  by (fastforce)

lemma fresh_report_report:
  assumes "fresh_report h = (h', results)"
  shows "report (length h) h' results" and "length h \<le> length h'"
    and "\<forall>a<length h. deref h' a = deref h a"
  using assms
  by (auto simp: fresh_report_def alloc_def report_def plain_def deref_def nth_append)

lemma closed_frame:
  assumes "closed n h" and "n \<le> length h'" and "\<forall>a<n. deref h' a = deref h a"
  shows "closed n h'"
  using assms by (simp add: closed_def plain_def)

lemma framedD:
  assumes "framed dest h h'"
  shows "length h \<le> length h'"
    and "\<And>a. a < length h \<Longrightarrow> a \<noteq> dest \<Longrightarrow>
       \<not> (plain h a \<and> a \<in> set (refs_of (deref h dest))) \<Longrightarrow> deref h' a = deref h a"
    and "\<And>a. a < length h \<Longrightarrow> plain h' a = plain h a"
    and "\<And>a. a < length h \<Longrightarrow> plain h a \<Longrightarrow> a \<in> set (refs_of (deref h' dest)) \<Longrightarrow>
       a \<in> set (refs_of (deref h dest))"
proof -
  from assms show "length h \<le> length h'" unfolding framed_def by (rule conjunct1)
  from assms have a: "\<forall>a<length h. a \<noteq> dest \<and> \<not> (plain h a \<and> a \<in> set (refs_of (deref h dest))) \<longrightarrow>
        deref h' a = deref h a" unfolding framed_def by blast
  from assms have b: "\<forall>a<length h. plain h' a = plain h a" unfolding framed_def by blast
  from assms have c: "\<forall>a<length h. plain h a \<and> a \<in> set (refs_of (deref h' dest)) \<longrightarrow>
        a \<in> set (refs_of (deref h dest))" unfolding framed_def by blast
  show "\<And>a. a < length h \<Longrightarrow> a \<noteq> dest \<Longrightarrow>
       \<not> (plain h a \<and> a \<in> set (refs_of (deref h dest))) \<Longrightarrow> deref h' a = deref h a"
    using a by blast
  show "\<And>a. a < length h \<Longrightarrow> plain h' a = plain h a" using b by blast
  show "\<And>a. a < length h \<Longrightarrow> plain h a \<Longrightarrow> a \<in> set (refs_of (deref h' dest)) \<Longrightarrow>
       a \<in> set (refs_of (deref h dest))" using c by blast
qed

lemma reportD:
  assumes "report n h results"
  shows "n \<le> results" "results < length h" "plain h results"
    "distinct (own_keys (deref h results))"
    "\<And>b. b \<in> set (refs_of (deref h results)) \<Longrightarrow> b < length h"
    "\<And>b. b \<in> set (refs_of (deref h results)) \<Longrightarrow> plain h b \<Longrightarrow> n \<le> b \<and> b \<noteq> results"
    "distinct (filter (plain h) (refs_of (deref h results)))"
  using assms unfolding report_def by blast+

lemma separated_dest:
  assumes "separated h src dest"
  shows "dest < length h" "plain h dest" "distinct (own_keys (deref h dest))"
    "\<And>b. b \<in> set (refs_of (deref h dest)) \<Longrightarrow> b < length h"
    "\<And>b. b \<in> set (refs_of (deref h dest)) \<Longrightarrow> plain h b \<Longrightarrow> b \<noteq> dest"
    "distinct (filter (plain h) (refs_of (deref h dest)))"
  using assms unfolding separated_def by blast+

lemma report_mix:
  assumes cl: "closed n h" and rep: "report n h results" and src: "src < n" "plain h src"
    and run: "mix strict src results h = Inr h'"
  shows "closed n h'" and "report n h' results" and "\<forall>a<n. deref h' a = deref h a"
proof -
  note sep = report_separated [OF cl rep src]
  note mf = mix_facts [OF sep run]
  note fr = framedD [OF mf(2)]
  note rd = reportD [OF rep]
  note s' = separated_dest [OF mf(1)]
  from cl have nl: "n \<le> length h" by (simp add: closed_def)
  show same: "\<forall>a<n. deref h' a = deref h a"
  proof (intro allI impI)
    fix a assume a: "a < n"
    from a rd(1) have 1: "a \<noteq> results" by simp
    have 2: "\<not> (plain h a \<and> a \<in> set (refs_of (deref h results)))"
    proof
      assume "plain h a \<and> a \<in> set (refs_of (deref h results))"
      then have "n \<le> a" using rd(6) [of a] by blast
      with a show False by simp
    qed
    from a nl have "a < length h" by simp
    from fr(2) [OF this 1 2] show "deref h' a = deref h a" .
  qed
  from nl fr(1) have "n \<le> length h'" by simp
  from closed_frame [OF cl this same] show "closed n h'" .
  have big: "\<And>b. b \<in> set (refs_of (deref h' results)) \<Longrightarrow> plain h' b \<Longrightarrow> n \<le> b"
  proof -
    fix b assume b: "b \<in> set (refs_of (deref h' results))" "plain h' b"
    show "n \<le> b"
    proof (cases "b < length h")
      case True
      with b(2) fr(3) [of b] have p: "plain h b" by simp
      from fr(4) [OF True p b(1)] have "b \<in> set (refs_of (deref h results))" .
      from rd(6) [OF this p] show ?thesis by simp
    next
      case False
      with nl show ?thesis by simp
    qed
  qed
  show "report n h' results"
    unfolding report_def
  proof (intro conjI ballI impI)
    show "n \<le> results" by (rule rd(1))
    show "results < length h'" by (rule s'(1))
    show "plain h' results" by (rule s'(2))
    show "distinct (own_keys (deref h' results))" by (rule s'(3))
    show "distinct (filter (plain h') (refs_of (deref h' results)))" by (rule s'(6))
  next
    fix b assume "b \<in> set (refs_of (deref h' results))"
    then show "b < length h'" by (rule s'(4))
  next
    fix b assume "b \<in> set (refs_of (deref h' results))" "plain h' b"
    then show "n \<le> b" by (rule big)
  next
    fix b assume "b \<in> set (refs_of (deref h' results))" "plain h' b"
    then show "b \<noteq> results" by (rule s'(5))
  qed
qed

lemma keeps_say: "keeps n h0 results (say es st) = keeps n h0 results st"
  by (simp add: keeps_def say_def)

lemma keeps_cache: "keeps n h0 results (st\<lparr>cache := x\<rparr>) = keeps n h0 results st"
  by (simp add: keeps_def)

lemma keeps_mix:
  assumes k: "keeps n h0 results st" and src: "src < n" "plain h0 src"
    and run: "mix strict src results (store st) = Inr h'"
  shows "keeps n h0 results (st\<lparr>store := h'\<rparr>)"
proof -
  from k have cl: "closed n (store st)" and rep: "report n (store st) results"
    and same: "\<forall>a<n. deref (store st) a = deref h0 a"
    unfolding keeps_def by blast+
  from same src have "deref (store st) src = deref h0 src" by blast
  with src(2) have p: "plain (store st) src" by (simp add: plain_def)
  note rm = report_mix [OF cl rep src(1) p run]
  from rm(3) same have "\<forall>a<n. deref h' a = deref h0 a" by simp
  with rm(1,2) show ?thesis by (simp add: keeps_def)
qed

lemma run_parallel_keeps:
  assumes "keeps n h0 results st"
    and "\<forall>c\<in>set sched. snd (snd c) < n \<and> plain h0 (snd (snd c))"
  shows "keeps n h0 results (run_parallel strict listens results sched pending called st)"
  using assms
proof (induction sched arbitrary: pending called st)
  case Nil
  then show ?case by simp
next
  case (Cons c sched)
  obtain d err result where c: "c = (d, err, result)" by (cases c) auto
  from Cons.prems(2) c have src: "result < n" "plain h0 result" by auto
  from Cons.prems(2) have tl: "\<forall>c\<in>set sched. snd (snd c) < n \<and> plain h0 (snd (snd c))"
    by simp
  have ih: "\<And>p cl st'. keeps n h0 results st' \<Longrightarrow>
      keeps n h0 results (run_parallel strict listens results sched p cl st')"
    by (rule Cons.IH [OF _ tl])
  note k = Cons.prems(1)
  show ?case
  proof (cases "truthy err")
    case True
    show ?thesis
    proof (cases called)
      case c1: True
      with True show ?thesis by (simp add: c ih [OF k])
    next
      case c2: False
      show ?thesis
      proof (cases "listens ''error''")
        case True
        from k have "keeps n h0 results (say [Emitted ''error'' err, CalledBack err Undefined] st)"
          by (simp only: keeps_say)
        from ih [OF this] \<open>truthy err\<close> c2 True show ?thesis by (simp add: c)
      next
        case False
        from k have "keeps n h0 results (say [Uncaught err] st)" by (simp only: keeps_say)
        with \<open>truthy err\<close> c2 False show ?thesis by (simp add: c)
      qed
    qed
  next
    case False
    show ?thesis
    proof (cases "mix strict result results (store st)")
      case (Inl e)
      from k have "keeps n h0 results (say [Threw e] st)" by (simp only: keeps_say)
      with False Inl show ?thesis by (simp add: c)
    next
      case (Inr h')
      note k1 = keeps_mix [OF k src Inr]
      show ?thesis
      proof (cases "pending - 1 = 0 \<and> \<not> called")
        case True
        from k1 have "keeps n h0 results
            (say [Stored (Ref results), Emitted ''detected'' (Ref results),
                  CalledBack Null (Ref results)] (st\<lparr>store := h', cache := Ref results\<rparr>))"
          by (simp only: keeps_say keeps_cache)
        from ih [OF this] False Inr True show ?thesis by (simp add: c Let_def)
      next
        case nl: False
        from ih [OF k1] False Inr nl show ?thesis by (auto simp add: c Let_def)
      qed
    qed
  qed
qed

text \<open>
  A detection leaves every object that existed before it as it was: the detectors'
  results, and the objects they refer to, are not modified.
\<close>

lemma detect_frame:
  assumes cl: "closed (length (store st)) (store st)"
    and srcs: "\<forall>c\<in>set sched. snd (snd c) < length (store st) \<and> plain (store st) (snd (snd c))"
    and a: "a < length (store st)"
  shows "deref (store (detect strict listens options sched st)) a = deref (store st) a"
proof (cases "cache_hit options st")
  case (Inl e)
  then show ?thesis by (simp add: detect_def say_def)
next
  case (Inr hit)
  show ?thesis
  proof (cases hit)
    case True
    with Inr show ?thesis by (simp add: detect_def say_def)
  next
    case False
    obtain h results where fr: "fresh_report (store st) = (h, results)"
      by (cases "fresh_report (store st)") auto
    note f = fresh_report_report [OF fr]
    let ?n = "length (store st)"
    let ?st = "say (map Invoked tasks) (st\<lparr>store := h\<rparr>)"
    from closed_frame [OF cl f(2,3)] have "closed ?n h" .
    with f(1,3) have "keeps ?n (store st) results (st\<lparr>store := h\<rparr>)"
      by (simp add: keeps_def)
    then have "keeps ?n (store st) results ?st" by (simp only: keeps_say)
    from run_parallel_keeps [OF this srcs, of strict listens "length tasks" False] a
    have "deref (store (run_parallel strict listens results sched (length tasks) False ?st)) a =
          deref (store st) a"
      unfolding keeps_def by blast
    with Inr False fr show ?thesis by (simp add: detect_def)
  qed
qed

end
